theory Spec2Isabelle
  imports Main "HOL-Library.AList" "HOL-Library.Sublist"
begin

section \<open>Data model of AdaptationProvider.tsx\<close>

text \<open>
  The development follows the later revision of
  \<^verbatim>\<open>packages/core-plugin-api/src/adaptable-components/AdaptationProvider.tsx\<close>,
  the one whose adaptation map is keyed by the component reference's \<^verbatim>\<open>id\<close> and whose
  provider understands \<^verbatim>\<open>reset\<close>, \<^verbatim>\<open>excludePlugins\<close>, \<^verbatim>\<open>excludeComponents\<close> and
  \<^verbatim>\<open>exclude\<close>.

  Functions (render replacements, props interceptors) and plugins are JavaScript objects
  that the provider only stores, tests for presence and compares by identity; they are
  represented by a natural number naming the object.
\<close>

type_synonym addr = nat
type_synonym BackstagePlugin = nat
type_synonym AdaptableComponentAdaptation = nat
type_synonym AdaptableComponentPropsInterceptor = nat

text \<open>
  A component reference is an object with an \<^verbatim>\<open>id\<close> string. \<open>ref_obj\<close> names the object
  itself, so that two reference objects with one \<^verbatim>\<open>id\<close> are different values.
\<close>

record AdaptableComponentRef =
  ref_obj :: nat
  ref_id :: string

record AdaptationSpec =
  Adaptation :: "AdaptableComponentAdaptation option"
  interceptProps :: "AdaptableComponentPropsInterceptor option"

record ComponentAdaptation =
  ref :: AdaptableComponentRef
  spec :: AdaptationSpec
  key :: string
  plugin :: "BackstagePlugin option"

text \<open>
  \<^verbatim>\<open>type PropsInterceptor = WrapAdaptation<{ propsInterceptor }>\<close> and
  \<^verbatim>\<open>type Adaptation = WrapAdaptation<{ component }>\<close>: the elements of the two lists.
  The second type is \<open>AdaptationElem\<close> here, since \<open>Adaptation\<close> is a field of the spec;
  the field \<^verbatim>\<open>adaptation\<close> of the first is \<open>interceptor_adaptation\<close>. The provider makes
  such an element when it pushes it and never changes one, so an element is a value.
\<close>

record PropsInterceptor =
  propsInterceptor :: AdaptableComponentPropsInterceptor
  interceptor_adaptation :: ComponentAdaptation

record AdaptationElem =
  component :: AdaptableComponentAdaptation
  adaptation :: ComponentAdaptation

text \<open>
  \<^verbatim>\<open>AdaptationMapValue\<close> is an object whose two fields refer to arrays. Arrays, value
  objects and \<^verbatim>\<open>Map\<close> objects are mutable and shared by reference, so they live in a
  store: one list of cells per kind of object, an address being an index into it. A new
  object is appended, hence its address is fresh. A \<^verbatim>\<open>Map\<close> is an association list in
  insertion order, keyed by the reference id.
\<close>

record AdaptationMapValue =
  propsInterceptors :: addr
  components :: addr

record heap =
  interceptor_arrays :: "PropsInterceptor list list"
  component_arrays :: "AdaptationElem list list"
  value_objs :: "AdaptationMapValue list"
  map_objs :: "(string \<times> addr) list list"

datatype 'a one_or_many = Single 'a | Array "'a list"

record AdaptationProviderProps =
  adaptations :: "ComponentAdaptation one_or_many option"
  reset :: "bool option"
  excludePlugins :: "BackstagePlugin list option"
  excludeComponents :: "AdaptableComponentRef one_or_many option"
  exclude :: "ComponentAdaptation list option"

section \<open>Allocation and mutation of objects\<close>

definition new_interceptor_array :: "PropsInterceptor list \<Rightarrow> heap \<Rightarrow> addr \<times> heap" where
  "new_interceptor_array xs h =
     (length (interceptor_arrays h), h\<lparr>interceptor_arrays := interceptor_arrays h @ [xs]\<rparr>)"

definition new_component_array :: "AdaptationElem list \<Rightarrow> heap \<Rightarrow> addr \<times> heap" where
  "new_component_array xs h =
     (length (component_arrays h), h\<lparr>component_arrays := component_arrays h @ [xs]\<rparr>)"

definition new_value :: "AdaptationMapValue \<Rightarrow> heap \<Rightarrow> addr \<times> heap" where
  "new_value v h = (length (value_objs h), h\<lparr>value_objs := value_objs h @ [v]\<rparr>)"

definition new_map :: "(string \<times> addr) list \<Rightarrow> heap \<Rightarrow> addr \<times> heap" where
  "new_map m h = (length (map_objs h), h\<lparr>map_objs := map_objs h @ [m]\<rparr>)"

text \<open>\<^verbatim>\<open>value.components = a\<close>\<close>

definition set_components :: "addr \<Rightarrow> addr \<Rightarrow> heap \<Rightarrow> heap" where
  "set_components v a h =
     h\<lparr>value_objs := (value_objs h)[v := (value_objs h ! v)\<lparr>components := a\<rparr>]\<rparr>"

text \<open>\<^verbatim>\<open>array.push(e)\<close>\<close>

definition push_component :: "addr \<Rightarrow> AdaptationElem \<Rightarrow> heap \<Rightarrow> heap" where
  "push_component a e h =
     h\<lparr>component_arrays := (component_arrays h)[a := component_arrays h ! a @ [e]]\<rparr>"

definition push_interceptor :: "addr \<Rightarrow> PropsInterceptor \<Rightarrow> heap \<Rightarrow> heap" where
  "push_interceptor a e h =
     h\<lparr>interceptor_arrays := (interceptor_arrays h)[a := interceptor_arrays h ! a @ [e]]\<rparr>"

text \<open>
  \<^verbatim>\<open>map.get(k)\<close>, \<^verbatim>\<open>map.set(k, v)\<close> (an existing key keeps its place, a new one goes
  last) and \<^verbatim>\<open>map.delete(k)\<close> on the \<^verbatim>\<open>Map\<close> at address \<open>m\<close>.
\<close>

definition Map_get :: "addr \<Rightarrow> string \<Rightarrow> heap \<Rightarrow> addr option" where
  "Map_get m k h = map_of (map_objs h ! m) k"

definition Map_set :: "addr \<Rightarrow> string \<Rightarrow> addr \<Rightarrow> heap \<Rightarrow> heap" where
  "Map_set m k v h = h\<lparr>map_objs := (map_objs h)[m := AList.update k v (map_objs h ! m)]\<rparr>"

definition Map_delete :: "addr \<Rightarrow> string \<Rightarrow> heap \<Rightarrow> heap" where
  "Map_delete m k h = h\<lparr>map_objs := (map_objs h)[m := AList.delete k (map_objs h ! m)]\<rparr>"

text \<open>\<^verbatim>\<open>new Map(entries)\<close> sets the entries one after the other.\<close>

definition Map_of_entries :: "(string \<times> addr) list \<Rightarrow> (string \<times> addr) list" where
  "Map_of_entries es = foldl (\<lambda>m (k, v). AList.update k v m) [] es"

text \<open>\<^verbatim>\<open>Array.isArray(x) ? x : [x]\<close>\<close>

fun as_array :: "'a one_or_many \<Rightarrow> 'a list" where
  "as_array (Single x) = [x]"
| "as_array (Array xs) = xs"

section \<open>The module\<close>

text \<open>
  \<^verbatim>\<open>const noAdaptations = { propsInterceptors: [], components: [] }\<close> is created once,
  when the module is loaded: it is the first value object, and its two empty arrays are the
  first arrays.
\<close>

definition noAdaptations :: addr where
  "noAdaptations = 0"

definition module_heap :: heap where
  "module_heap =
     \<lparr>interceptor_arrays = [[]], component_arrays = [[]],
      value_objs = [\<lparr>propsInterceptors = 0, components = 0\<rparr>], map_objs = []\<rparr>"

subsection \<open>cloneAdaptationMap\<close>

text \<open>
  The callback of \<^verbatim>\<open>[...parent.entries()].map(...)\<close>, entry by entry: a new array with the
  elements of \<^verbatim>\<open>val.components\<close>, a new array with those of \<^verbatim>\<open>val.propsInterceptors\<close>,
  and a new value object holding the two.
\<close>

fun clone_entries :: "(string \<times> addr) list \<Rightarrow> heap \<Rightarrow> (string \<times> addr) list \<times> heap" where
  "clone_entries [] h = ([], h)"
| "clone_entries ((k, v) # es) h =
     (let val = value_objs h ! v;
          (c, h1) = new_component_array (component_arrays h ! components val) h;
          (i, h2) = new_interceptor_array (interceptor_arrays h1 ! propsInterceptors val) h1;
          (nv, h3) = new_value \<lparr>propsInterceptors = i, components = c\<rparr> h2;
          (es', h4) = clone_entries es h3
      in ((k, nv) # es', h4))"

definition cloneAdaptationMap :: "addr option \<Rightarrow> heap \<Rightarrow> addr \<times> heap" where
  "cloneAdaptationMap parent h =
     (let entries = (case parent of None \<Rightarrow> [] | Some p \<Rightarrow> map_objs h ! p);
          (flatMap, h1) = clone_entries entries h
      in new_map (Map_of_entries flatMap) h1)"

subsection \<open>ensureMapValue\<close>

definition ensureMapValue :: "addr \<Rightarrow> string \<Rightarrow> heap \<Rightarrow> addr \<times> heap" where
  "ensureMapValue m k h =
     (case Map_get m k h of
        Some v \<Rightarrow> (v, h)
      | None \<Rightarrow>
          (let (i, h1) = new_interceptor_array [] h;
               (c, h2) = new_component_array [] h1;
               (newValue, h3) = new_value \<lparr>propsInterceptors = i, components = c\<rparr> h2
           in (newValue, Map_set m k newValue h3)))"

subsection \<open>appendAdaptationMap\<close>

text \<open>The body of \<^verbatim>\<open>adaptations.forEach(adaptation => ...)\<close>.\<close>

definition append_adaptation :: "addr \<Rightarrow> ComponentAdaptation \<Rightarrow> heap \<Rightarrow> heap" where
  "append_adaptation m a h =
     (let (v, h1) = ensureMapValue m (ref_id (ref a)) h;
          h2 = (case Adaptation (spec a) of
                  Some f \<Rightarrow>
                    (let arr = components (value_objs h1 ! v) in
                     if find (\<lambda>c. key (adaptation c) = key a) (component_arrays h1 ! arr) = None
                     then push_component arr \<lparr>component = f, adaptation = a\<rparr> h1
                     else h1)
                | None \<Rightarrow> h1)
      in (case interceptProps (spec a) of
            Some f \<Rightarrow>
              (let arr = propsInterceptors (value_objs h2 ! v) in
               if find (\<lambda>i. key (interceptor_adaptation i) = key a) (interceptor_arrays h2 ! arr)
                    = None
               then push_interceptor arr \<lparr>propsInterceptor = f, interceptor_adaptation = a\<rparr> h2
               else h2)
          | None \<Rightarrow> h2))"

definition appendAdaptationMap :: "addr \<Rightarrow> ComponentAdaptation list \<Rightarrow> heap \<Rightarrow> heap" where
  "appendAdaptationMap m as h = fold (append_adaptation m) as h"

subsection \<open>AdaptationProvider\<close>

text \<open>
  The body of \<^verbatim>\<open>value => { value.components = value.components.filter(..).filter(..) }\<close>:
  each \<^verbatim>\<open>filter\<close> makes a new array, and the second one is assigned to the field.
\<close>

definition exclude_from_value ::
  "BackstagePlugin set \<Rightarrow> string set \<Rightarrow> addr \<Rightarrow> heap \<Rightarrow> heap" where
  "exclude_from_value excludePluginsSet excludeSet v h =
     (let (a1, h1) =
            new_component_array
              (filter (\<lambda>c. case plugin (adaptation c) of
                             None \<Rightarrow> True
                           | Some p \<Rightarrow> p \<notin> excludePluginsSet)
                 (component_arrays h ! components (value_objs h ! v))) h;
          (a2, h2) =
            new_component_array
              (filter (\<lambda>c. key (adaptation c) \<notin> excludeSet) (component_arrays h1 ! a1)) h1
      in set_components v a2 h2)"

text \<open>
  The callback of \<^verbatim>\<open>useMemo\<close> in \<^verbatim>\<open>AdaptationProvider\<close>. The context value is an object
  with the single field \<^verbatim>\<open>adaptationMap\<close>; it is represented by the address of that map,
  and a missing parent context by \<open>None\<close>. The result is the new map and the heap after
  the call.
\<close>

definition AdaptationProvider ::
  "AdaptationProviderProps \<Rightarrow> addr option \<Rightarrow> heap \<Rightarrow> addr \<times> heap" where
  "AdaptationProvider props parentContext h =
     (let (adaptationMap, h1) =
            (if (case reset props of None \<Rightarrow> False | Some b \<Rightarrow> b)
             then cloneAdaptationMap None h
             else cloneAdaptationMap parentContext h);
          h2 = (case excludeComponents props of
                  None \<Rightarrow> h1
                | Some ec \<Rightarrow> fold (\<lambda>r. Map_delete adaptationMap (ref_id r)) (as_array ec) h1);
          h3 = (if excludePlugins props \<noteq> None \<or> exclude props \<noteq> None
                then
                  (let excludePluginsSet =
                         set (case excludePlugins props of None \<Rightarrow> [] | Some ps \<Rightarrow> ps);
                       excludeSet =
                         set (map key (case exclude props of None \<Rightarrow> [] | Some es \<Rightarrow> es))
                   in fold (exclude_from_value excludePluginsSet excludeSet)
                        (map snd (map_objs h2 ! adaptationMap)) h2)
                else h2);
          h4 = (case adaptations props of
                  None \<Rightarrow> h3
                | Some as \<Rightarrow> appendAdaptationMap adaptationMap (as_array as) h3)
      in (adaptationMap, h4))"

subsection \<open>useComponentAdaptations\<close>

text \<open>
  \<^verbatim>\<open>adaptationMap?.get(componentRef.id) ?? noAdaptations\<close>: the result is a reference to a
  value object. The two functions after it read the lists a consumer finds behind it.
\<close>

definition useComponentAdaptations :: "addr option \<Rightarrow> AdaptableComponentRef \<Rightarrow> heap \<Rightarrow> addr" where
  "useComponentAdaptations ctx componentRef h =
     (case ctx of
        None \<Rightarrow> noAdaptations
      | Some adaptationMap \<Rightarrow>
          (case Map_get adaptationMap (ref_id componentRef) h of
             None \<Rightarrow> noAdaptations
           | Some v \<Rightarrow> v))"

definition components_of :: "heap \<Rightarrow> addr \<Rightarrow> AdaptationElem list" where
  "components_of h v = component_arrays h ! components (value_objs h ! v)"

definition propsInterceptors_of :: "heap \<Rightarrow> addr \<Rightarrow> PropsInterceptor list" where
  "propsInterceptors_of h v = interceptor_arrays h ! propsInterceptors (value_objs h ! v)"

section \<open>Well-formed heaps and the lists of a registry\<close>

text \<open>
  The definitions of this section are not functions of the source. They say which heaps
  the provider can meet, what a consumer reads from a registry, and what the steps of the
  provider do to the lists that a consumer reads.

  In a well-formed heap every reference points to an object: the fields of a value object
  are addresses of arrays, the values of a \<^verbatim>\<open>Map\<close> are addresses of value objects. The
  keys of a \<^verbatim>\<open>Map\<close> are distinct, and \<^verbatim>\<open>noAdaptations\<close> is there with two empty lists.
  Nothing is asked about sharing: two registries, or two keys of one, may hold the same
  value object or the same array.
\<close>

definition wf_heap :: "heap \<Rightarrow> bool" where
  "wf_heap h \<longleftrightarrow>
     noAdaptations < length (value_objs h) \<and>
     propsInterceptors_of h noAdaptations = [] \<and>
     components_of h noAdaptations = [] \<and>
     (\<forall>val \<in> set (value_objs h).
        propsInterceptors val < length (interceptor_arrays h) \<and>
        components val < length (component_arrays h)) \<and>
     (\<forall>m \<in> set (map_objs h).
        distinct (map fst m) \<and> (\<forall>v \<in> set (map snd m). v < length (value_objs h)))"

text \<open>
  \<open>heap_extends h h'\<close>: every object of \<open>h\<close> is in \<open>h'\<close>, at its address, the same as
  it is in \<open>h\<close>; \<open>h'\<close> may hold more objects.
\<close>

definition heap_extends :: "heap \<Rightarrow> heap \<Rightarrow> bool" where
  "heap_extends h h' \<longleftrightarrow>
     take (length (interceptor_arrays h)) (interceptor_arrays h') = interceptor_arrays h \<and>
     take (length (component_arrays h)) (component_arrays h') = component_arrays h \<and>
     take (length (value_objs h)) (value_objs h') = value_objs h \<and>
     take (length (map_objs h)) (map_objs h') = map_objs h"

text \<open>The value object at \<open>v\<close> exists and its two fields point to arrays.\<close>

definition valid_value :: "heap \<Rightarrow> addr \<Rightarrow> bool" where
  "valid_value h v \<longleftrightarrow>
     v < length (value_objs h) \<and>
     propsInterceptors (value_objs h ! v) < length (interceptor_arrays h) \<and>
     components (value_objs h ! v) < length (component_arrays h)"

text \<open>
  The heap after \<^verbatim>\<open>cloneAdaptationMap\<close> of a map with the entries \<open>es\<close>, in closed form:
  one new array of each kind and one new value object per entry, and the new map.
\<close>

definition cloned_heap :: "heap \<Rightarrow> (string \<times> addr) list \<Rightarrow> heap" where
  "cloned_heap h es =
     h\<lparr>interceptor_arrays := interceptor_arrays h @ map (\<lambda>(k, v). propsInterceptors_of h v) es,
       component_arrays := component_arrays h @ map (\<lambda>(k, v). components_of h v) es,
       value_objs := value_objs h @
          map (\<lambda>j. \<lparr>propsInterceptors = length (interceptor_arrays h) + j,
                    components = length (component_arrays h) + j\<rparr>) [0 ..< length es],
       map_objs := map_objs h @
          [zip (map fst es) [length (value_objs h) ..< length (value_objs h) + length es]]\<rparr>"

text \<open>
  The two lists behind a value object, and the registry at address \<open>m\<close> as a consumer
  sees it: a partial function from reference ids to pairs of lists.
\<close>

definition lists_of :: "heap \<Rightarrow> addr \<Rightarrow> PropsInterceptor list \<times> AdaptationElem list" where
  "lists_of h v = (propsInterceptors_of h v, components_of h v)"

definition entry ::
  "heap \<Rightarrow> addr \<Rightarrow> string \<Rightarrow> (PropsInterceptor list \<times> AdaptationElem list) option" where
  "entry h m k = map_option (lists_of h) (Map_get m k h)"

text \<open>
  A provider owns the map it has cloned, with its value objects and their arrays:
  \<open>owned h0 h m\<close> holds during a call that started in the heap \<open>h0\<close>, when all of them
  were made after \<open>h0\<close> and none is shared between two keys of the map. Objects of
  \<open>h0\<close> are unchanged in \<open>h\<close>.
\<close>

definition map_values :: "heap \<Rightarrow> addr \<Rightarrow> addr set" where
  "map_values h m = set (map snd (map_objs h ! m))"

definition owned :: "heap \<Rightarrow> heap \<Rightarrow> addr \<Rightarrow> bool" where
  "owned h0 h m \<longleftrightarrow>
     wf_heap h0 \<and> heap_extends h0 h \<and> wf_heap h \<and>
     length (map_objs h0) \<le> m \<and> m < length (map_objs h) \<and>
     distinct (map snd (map_objs h ! m)) \<and>
     (\<forall>v \<in> map_values h m.
        length (value_objs h0) \<le> v \<and>
        length (interceptor_arrays h0) \<le> propsInterceptors (value_objs h ! v) \<and>
        length (component_arrays h0) \<le> components (value_objs h ! v)) \<and>
     inj_on (\<lambda>v. propsInterceptors (value_objs h ! v)) (map_values h m) \<and>
     inj_on (\<lambda>v. components (value_objs h ! v)) (map_values h m)"

text \<open>The two filters of the exclusion step, on a list and on an entry.\<close>

definition kept :: "BackstagePlugin set \<Rightarrow> string set \<Rightarrow> AdaptationElem list \<Rightarrow> AdaptationElem list" where
  "kept S T cs =
     filter (\<lambda>c. key (adaptation c) \<notin> T)
       (filter (\<lambda>c. case plugin (adaptation c) of None \<Rightarrow> True | Some p \<Rightarrow> p \<notin> S) cs)"

definition filtered :: "BackstagePlugin set \<Rightarrow> string set \<Rightarrow>
    PropsInterceptor list \<times> AdaptationElem list \<Rightarrow> PropsInterceptor list \<times> AdaptationElem list" where
  "filtered S T e = (fst e, kept S T (snd e))"

text \<open>The heap after \<^verbatim>\<open>ensureMapValue\<close> has made a value for a key that had none.\<close>

definition with_new_value :: "addr \<Rightarrow> string \<Rightarrow> heap \<Rightarrow> heap" where
  "with_new_value m k h =
     h\<lparr>interceptor_arrays := interceptor_arrays h @ [[]],
       component_arrays := component_arrays h @ [[]],
       value_objs := value_objs h @
         [\<lparr>propsInterceptors = length (interceptor_arrays h),
           components = length (component_arrays h)\<rparr>],
       map_objs := (map_objs h)[m := map_objs h ! m @ [(k, length (value_objs h))]]\<rparr>"

text \<open>
  The two conditional pushes of \<^verbatim>\<open>appendAdaptationMap\<close>, on lists, and the registry after
  one adaptation.
\<close>

definition add_component :: "ComponentAdaptation \<Rightarrow> AdaptationElem list \<Rightarrow> AdaptationElem list" where
  "add_component a cs =
     (case Adaptation (spec a) of
        Some f \<Rightarrow>
          if find (\<lambda>c. key (adaptation c) = key a) cs = None
          then cs @ [\<lparr>component = f, adaptation = a\<rparr>] else cs
      | None \<Rightarrow> cs)"

definition add_interceptor :: "ComponentAdaptation \<Rightarrow> PropsInterceptor list \<Rightarrow> PropsInterceptor list" where
  "add_interceptor a ps =
     (case interceptProps (spec a) of
        Some f \<Rightarrow>
          if find (\<lambda>i. key (interceptor_adaptation i) = key a) ps = None
          then ps @ [\<lparr>propsInterceptor = f, interceptor_adaptation = a\<rparr>] else ps
      | None \<Rightarrow> ps)"

definition with_adaptation ::
  "ComponentAdaptation \<Rightarrow> (string \<rightharpoonup> PropsInterceptor list \<times> AdaptationElem list) \<Rightarrow>
     (string \<rightharpoonup> PropsInterceptor list \<times> AdaptationElem list)" where
  "with_adaptation a f =
     (let e = (case f (ref_id (ref a)) of None \<Rightarrow> ([], []) | Some e \<Rightarrow> e)
      in f(ref_id (ref a) \<mapsto> (add_interceptor a (fst e), add_component a (snd e))))"

text \<open>
  A parent context is valid when its map is in the heap. \<open>context_entry\<close> is the registry
  that a lookup under that context sees; without a provider it has no entry.
\<close>

definition valid_context :: "heap \<Rightarrow> addr option \<Rightarrow> bool" where
  "valid_context h ctx = (case ctx of None \<Rightarrow> True | Some p \<Rightarrow> p < length (map_objs h))"

definition context_entry ::
  "heap \<Rightarrow> addr option \<Rightarrow> string \<rightharpoonup> PropsInterceptor list \<times> AdaptationElem list" where
  "context_entry h ctx = (case ctx of None \<Rightarrow> Map.empty | Some p \<Rightarrow> entry h p)"

text \<open>The two sets of the exclusion step.\<close>

definition excluded_plugins :: "AdaptationProviderProps \<Rightarrow> BackstagePlugin set" where
  "excluded_plugins props = set (case excludePlugins props of None \<Rightarrow> [] | Some ps \<Rightarrow> ps)"

definition excluded_keys :: "AdaptationProviderProps \<Rightarrow> string set" where
  "excluded_keys props = set (map key (case exclude props of None \<Rightarrow> [] | Some es \<Rightarrow> es))"

text \<open>
  \<open>provided props f\<close> is the registry of the child as a consumer sees it, from the
  registry \<open>f\<close> of the parent: the four steps of the provider, on lists.
\<close>

definition provided ::
  "AdaptationProviderProps \<Rightarrow> (string \<rightharpoonup> PropsInterceptor list \<times> AdaptationElem list) \<Rightarrow>
     (string \<rightharpoonup> PropsInterceptor list \<times> AdaptationElem list)" where
  "provided props f =
     (let f1 = (if (case reset props of None \<Rightarrow> False | Some b \<Rightarrow> b) then Map.empty else f);
          f2 = (case excludeComponents props of
                  None \<Rightarrow> f1
                | Some ec \<Rightarrow> (\<lambda>k. if k \<in> ref_id ` set (as_array ec) then None else f1 k));
          f3 = (if excludePlugins props \<noteq> None \<or> exclude props \<noteq> None
                then (\<lambda>k. map_option (filtered (excluded_plugins props) (excluded_keys props))
                            (f2 k))
                else f2)
      in (case adaptations props of
            None \<Rightarrow> f3
          | Some as \<Rightarrow> fold with_adaptation (as_array as) f3))"

text \<open>The props \<^verbatim>\<open>{}\<close>; \<open>no_props\<lparr>reset := Some True\<rparr>\<close> is \<^verbatim>\<open>{ reset: true }\<close>.\<close>

definition no_props :: AdaptationProviderProps where
  "no_props = \<lparr>adaptations = None, reset = None, excludePlugins = None,
                excludeComponents = None, exclude = None\<rparr>"

text \<open>The parts of the props and of an entry that the lists of the child depend on.\<close>

definition entry_components ::
  "(string \<rightharpoonup> PropsInterceptor list \<times> AdaptationElem list) \<Rightarrow> string \<Rightarrow> AdaptationElem list" where
  "entry_components f k = (case f k of None \<Rightarrow> [] | Some e \<Rightarrow> snd e)"

definition entry_interceptors ::
  "(string \<rightharpoonup> PropsInterceptor list \<times> AdaptationElem list) \<Rightarrow> string \<Rightarrow> PropsInterceptor list" where
  "entry_interceptors f k = (case f k of None \<Rightarrow> [] | Some e \<Rightarrow> fst e)"

definition reset_on :: "AdaptationProviderProps \<Rightarrow> bool" where
  "reset_on props = (case reset props of None \<Rightarrow> False | Some b \<Rightarrow> b)"

definition excluded_ids :: "AdaptationProviderProps \<Rightarrow> string set" where
  "excluded_ids props =
     (case excludeComponents props of None \<Rightarrow> {} | Some ec \<Rightarrow> ref_id ` set (as_array ec))"

definition new_adaptations :: "AdaptationProviderProps \<Rightarrow> ComponentAdaptation list" where
  "new_adaptations props = (case adaptations props of None \<Rightarrow> [] | Some as \<Rightarrow> as_array as)"

text \<open>
  What reset and the three exclusions leave of a list of the parent, for the reference
  id \<open>k\<close>: nothing after a reset or when \<open>k\<close> is an excluded component; otherwise the
  components without those of an excluded plugin and then without those of an excluded
  key, and all the props interceptors.
\<close>

definition inherited_components ::
  "AdaptationProviderProps \<Rightarrow> string \<Rightarrow> AdaptationElem list \<Rightarrow> AdaptationElem list" where
  "inherited_components props k cs =
     filter (\<lambda>c. key (adaptation c) \<notin>
               set (map key (case exclude props of None \<Rightarrow> [] | Some es \<Rightarrow> es)))
       (filter (\<lambda>c. case plugin (adaptation c) of
                      None \<Rightarrow> True
                    | Some p \<Rightarrow> p \<notin> set (case excludePlugins props of None \<Rightarrow> [] | Some ps \<Rightarrow> ps))
          (if k \<in> (case excludeComponents props of
                      None \<Rightarrow> {} | Some ec \<Rightarrow> ref_id ` set (as_array ec))
           then []
           else if (case reset props of None \<Rightarrow> False | Some b \<Rightarrow> b) then [] else cs))"

definition inherited_interceptors ::
  "AdaptationProviderProps \<Rightarrow> string \<Rightarrow> PropsInterceptor list \<Rightarrow> PropsInterceptor list" where
  "inherited_interceptors props k ps =
     (if k \<in> (case excludeComponents props of
                 None \<Rightarrow> {} | Some ec \<Rightarrow> ref_id ` set (as_array ec))
      then []
      else if (case reset props of None \<Rightarrow> False | Some b \<Rightarrow> b) then [] else ps)"

text \<open>
  Examples: two reference objects with the id \<^verbatim>\<open>X\<close> and one with the id \<^verbatim>\<open>Y\<close>;
  adaptations of two plugins; the heap \<open>heap_a\<close> after a provider at the root was given
  \<open>ad_a\<close>, and \<open>heap_ab\<close> after it was given \<open>ad_a\<close> and \<open>ad_b\<close>.
\<close>

definition ref_X :: AdaptableComponentRef where
  "ref_X = \<lparr>ref_obj = 1, ref_id = ''X''\<rparr>"

definition ref_X2 :: AdaptableComponentRef where
  "ref_X2 = \<lparr>ref_obj = 2, ref_id = ''X''\<rparr>"

definition ref_Y :: AdaptableComponentRef where
  "ref_Y = \<lparr>ref_obj = 3, ref_id = ''Y''\<rparr>"

definition ad_a :: ComponentAdaptation where
  "ad_a = \<lparr>ref = ref_X, spec = \<lparr>Adaptation = Some 10, interceptProps = None\<rparr>,
           key = ''a'', plugin = Some 1\<rparr>"

definition ad_b :: ComponentAdaptation where
  "ad_b = \<lparr>ref = ref_X, spec = \<lparr>Adaptation = Some 11, interceptProps = Some 20\<rparr>,
           key = ''b'', plugin = Some 2\<rparr>"

definition ad_a2 :: ComponentAdaptation where
  "ad_a2 = \<lparr>ref = ref_X2, spec = \<lparr>Adaptation = Some 12, interceptProps = None\<rparr>,
           key = ''a'', plugin = None\<rparr>"

definition heap_a :: heap where
  "heap_a =
     \<lparr>interceptor_arrays = [[], []],
      component_arrays = [[], [\<lparr>component = 10, adaptation = ad_a\<rparr>]],
      value_objs = [\<lparr>propsInterceptors = 0, components = 0\<rparr>,
                    \<lparr>propsInterceptors = 1, components = 1\<rparr>],
      map_objs = [[(''X'', 1)]]\<rparr>"

definition heap_ab :: heap where
  "heap_ab =
     \<lparr>interceptor_arrays = [[], [\<lparr>propsInterceptor = 20, interceptor_adaptation = ad_b\<rparr>]],
      component_arrays = [[], [\<lparr>component = 10, adaptation = ad_a\<rparr>,
                               \<lparr>component = 11, adaptation = ad_b\<rparr>]],
      value_objs = [\<lparr>propsInterceptors = 0, components = 0\<rparr>,
                    \<lparr>propsInterceptors = 1, components = 1\<rparr>],
      map_objs = [[(''X'', 1)]]\<rparr>"

text \<open>More adaptations for \<^verbatim>\<open>X\<close>, and one for \<^verbatim>\<open>Y\<close> with an empty spec.\<close>

definition ad_a3 :: ComponentAdaptation where
  "ad_a3 = \<lparr>ref = ref_X, spec = \<lparr>Adaptation = Some 13, interceptProps = None\<rparr>,
            key = ''a'', plugin = None\<rparr>"

definition ad_a4 :: ComponentAdaptation where
  "ad_a4 = \<lparr>ref = ref_X, spec = \<lparr>Adaptation = Some 14, interceptProps = None\<rparr>,
            key = ''a'', plugin = None\<rparr>"

definition ad_b2 :: ComponentAdaptation where
  "ad_b2 = \<lparr>ref = ref_X, spec = \<lparr>Adaptation = Some 18, interceptProps = None\<rparr>,
            key = ''b'', plugin = Some 1\<rparr>"

definition ad_c :: ComponentAdaptation where
  "ad_c = \<lparr>ref = ref_X, spec = \<lparr>Adaptation = Some 15, interceptProps = None\<rparr>,
           key = ''c'', plugin = None\<rparr>"

definition ad_c2 :: ComponentAdaptation where
  "ad_c2 = \<lparr>ref = ref_X, spec = \<lparr>Adaptation = Some 16, interceptProps = None\<rparr>,
            key = ''c'', plugin = None\<rparr>"

definition ad_d :: ComponentAdaptation where
  "ad_d = \<lparr>ref = ref_X, spec = \<lparr>Adaptation = Some 17, interceptProps = None\<rparr>,
           key = ''d'', plugin = None\<rparr>"

definition ad_c3 :: ComponentAdaptation where
  "ad_c3 = \<lparr>ref = ref_X, spec = \<lparr>Adaptation = Some 19, interceptProps = Some 23\<rparr>,
            key = ''c'', plugin = None\<rparr>"

definition ad_e :: ComponentAdaptation where
  "ad_e = \<lparr>ref = ref_X, spec = \<lparr>Adaptation = Some 30, interceptProps = Some 21\<rparr>,
           key = ''e'', plugin = None\<rparr>"

definition ad_f :: ComponentAdaptation where
  "ad_f = \<lparr>ref = ref_X, spec = \<lparr>Adaptation = Some 31, interceptProps = Some 22\<rparr>,
           key = ''f'', plugin = None\<rparr>"

definition ad_none :: ComponentAdaptation where
  "ad_none = \<lparr>ref = ref_Y, spec = \<lparr>Adaptation = None, interceptProps = None\<rparr>,
              key = ''n'', plugin = None\<rparr>"

section \<open>Properties of the heap operations\<close>

subsection \<open>Heap extension\<close>

lemma take_eq_imp_le: "take (length xs) ys = xs \<Longrightarrow> length xs \<le> length ys"
proof -
  assume "take (length xs) ys = xs"
  then have "length (take (length xs) ys) = length xs" by simp
  then show ?thesis by simp
qed

lemma take_eq_nth: "take (length xs) ys = xs \<Longrightarrow> i < length xs \<Longrightarrow> ys ! i = xs ! i"
  by (metis nth_take)

lemma take_eq_trans:
  "take (length xs) ys = xs \<Longrightarrow> take (length ys) zs = ys \<Longrightarrow> take (length xs) zs = xs"
  by (metis take_eq_imp_le min.absorb1 take_take)

lemma heap_extends_refl: "heap_extends h h"
  by (simp add: heap_extends_def)

lemma heap_extends_trans: "heap_extends h1 h2 \<Longrightarrow> heap_extends h2 h3 \<Longrightarrow> heap_extends h1 h3"
  unfolding heap_extends_def by (blast intro: take_eq_trans)

lemma heap_extends_length:
  assumes "heap_extends h h'"
  shows "length (interceptor_arrays h) \<le> length (interceptor_arrays h')"
    and "length (component_arrays h) \<le> length (component_arrays h')"
    and "length (value_objs h) \<le> length (value_objs h')"
    and "length (map_objs h) \<le> length (map_objs h')"
  using assms unfolding heap_extends_def by (blast intro: take_eq_imp_le)+

lemma heap_extends_nth:
  assumes "heap_extends h h'"
  shows "a < length (interceptor_arrays h) \<Longrightarrow> interceptor_arrays h' ! a = interceptor_arrays h ! a"
    and "b < length (component_arrays h) \<Longrightarrow> component_arrays h' ! b = component_arrays h ! b"
    and "v < length (value_objs h) \<Longrightarrow> value_objs h' ! v = value_objs h ! v"
    and "m < length (map_objs h) \<Longrightarrow> map_objs h' ! m = map_objs h ! m"
  using assms unfolding heap_extends_def by (blast intro: take_eq_nth)+

lemma wf_heap_value:
  "wf_heap h \<Longrightarrow> v < length (value_objs h) \<Longrightarrow>
     propsInterceptors (value_objs h ! v) < length (interceptor_arrays h) \<and>
     components (value_objs h ! v) < length (component_arrays h)"
  by (simp add: wf_heap_def)

lemma wf_heap_map:
  "wf_heap h \<Longrightarrow> m < length (map_objs h) \<Longrightarrow> map_of (map_objs h ! m) k = Some v \<Longrightarrow>
     v < length (value_objs h)"
  unfolding wf_heap_def by (metis map_of_SomeD nth_mem snd_conv image_eqI set_map)

lemma wf_heap_distinct:
  "wf_heap h \<Longrightarrow> m < length (map_objs h) \<Longrightarrow> distinct (map fst (map_objs h ! m))"
  by (simp add: wf_heap_def)

text \<open>Reading through a reference of the old heap gives the same lists in an extension.\<close>

lemma heap_extends_lists:
  assumes "heap_extends h h'" "wf_heap h" "v < length (value_objs h)"
  shows "components_of h' v = components_of h v"
    and "propsInterceptors_of h' v = propsInterceptors_of h v"
  using assms wf_heap_value[of h v]
  by (simp_all add: components_of_def propsInterceptors_of_def heap_extends_nth)

subsection \<open>cloneAdaptationMap in closed form\<close>

lemma clone_entries_closed:
  assumes "\<forall>v \<in> set (map snd es). valid_value h v"
  shows "clone_entries es h =
     (zip (map fst es) [length (value_objs h) ..< length (value_objs h) + length es],
      h\<lparr>interceptor_arrays := interceptor_arrays h @ map (\<lambda>(k, v). propsInterceptors_of h v) es,
        component_arrays := component_arrays h @ map (\<lambda>(k, v). components_of h v) es,
        value_objs := value_objs h @
          map (\<lambda>j. \<lparr>propsInterceptors = length (interceptor_arrays h) + j,
                    components = length (component_arrays h) + j\<rparr>) [0 ..< length es]\<rparr>)"
  using assms
proof (induction es arbitrary: h)
  case Nil
  then show ?case by simp
next
  case (Cons e es)
  obtain k v where e: "e = (k, v)" by (cases e)
  define h3 where "h3 = h\<lparr>component_arrays := component_arrays h @ [components_of h v],
       interceptor_arrays := interceptor_arrays h @ [propsInterceptors_of h v],
       value_objs := value_objs h @ [\<lparr>propsInterceptors = length (interceptor_arrays h),
                                      components = length (component_arrays h)\<rparr>]\<rparr>"
  have v: "valid_value h v" using Cons.prems e by simp
  have step: "clone_entries (e # es) h =
      (let (es', h4) = clone_entries es h3 in ((k, length (value_objs h)) # es', h4))"
    by (simp add: e h3_def Let_def new_component_array_def new_interceptor_array_def new_value_def
        components_of_def propsInterceptors_of_def)
  have valid3: "\<forall>w \<in> set (map snd es). valid_value h3 w"
    using Cons.prems by (auto simp: valid_value_def h3_def nth_append)
  have same_c: "map (\<lambda>(k, w). components_of h3 w) es = map (\<lambda>(k, w). components_of h w) es"
    using Cons.prems by (auto simp: valid_value_def h3_def nth_append components_of_def)
  have same_i: "map (\<lambda>(k, w). propsInterceptors_of h3 w) es =
      map (\<lambda>(k, w). propsInterceptors_of h w) es"
    using Cons.prems by (auto simp: valid_value_def h3_def nth_append propsInterceptors_of_def)
  have upt: "[length (value_objs h) ..< Suc (length (value_objs h) + length es)] =
      length (value_objs h) # [Suc (length (value_objs h)) ..< Suc (length (value_objs h) + length es)]"
    by (rule upt_conv_Cons) simp
  show ?case
    unfolding step Cons.IH[OF valid3] same_c same_i
    by (simp add: h3_def e upt map_upt_Suc del: upt_Suc)
qed

lemma update_fresh_key: "k \<notin> fst ` set al \<Longrightarrow> AList.update k v al = al @ [(k, v)]"
  by (induction al) auto

lemma foldl_update_distinct:
  "distinct (map fst (acc @ es)) \<Longrightarrow>
     foldl (\<lambda>m (k, v). AList.update k v m) acc es = acc @ es"
proof (induction es arbitrary: acc)
  case Nil
  then show ?case by simp
next
  case (Cons e es)
  obtain k v where e: "e = (k, v)" by (cases e)
  have "k \<notin> fst ` set acc" using Cons.prems e by auto
  then have "AList.update k v acc = acc @ [(k, v)]" by (rule update_fresh_key)
  moreover have "distinct (map fst ((acc @ [(k, v)]) @ es))" using Cons.prems e by simp
  ultimately show ?case using Cons.IH[of "acc @ [(k, v)]"] e by simp
qed

lemma Map_of_entries_distinct: "distinct (map fst es) \<Longrightarrow> Map_of_entries es = es"
  using foldl_update_distinct[of "[]" es] by (simp add: Map_of_entries_def)

lemma wf_heap_valid_value:
  "wf_heap h \<Longrightarrow> v < length (value_objs h) \<Longrightarrow> valid_value h v"
  by (simp add: valid_value_def wf_heap_value)

lemma wf_heap_map_values:
  "wf_heap h \<Longrightarrow> m < length (map_objs h) \<Longrightarrow> v \<in> set (map snd (map_objs h ! m)) \<Longrightarrow>
     v < length (value_objs h)"
  unfolding wf_heap_def by (meson nth_mem)

lemma cloneAdaptationMap_None:
  "cloneAdaptationMap None h = (length (map_objs h), cloned_heap h [])"
  by (simp add: cloneAdaptationMap_def cloned_heap_def new_map_def Map_of_entries_def)

lemma cloneAdaptationMap_Some:
  assumes "wf_heap h" "p < length (map_objs h)"
  shows "cloneAdaptationMap (Some p) h = (length (map_objs h), cloned_heap h (map_objs h ! p))"
proof -
  let ?es = "map_objs h ! p"
  have valid: "\<forall>v \<in> set (map snd ?es). valid_value h v"
    using assms by (blast intro: wf_heap_valid_value wf_heap_map_values)
  have "distinct (map fst ?es)" using assms by (rule wf_heap_distinct)
  then have "Map_of_entries (zip (map fst ?es)
      [length (value_objs h) ..< length (value_objs h) + length ?es]) =
      zip (map fst ?es) [length (value_objs h) ..< length (value_objs h) + length ?es]"
    by (intro Map_of_entries_distinct) simp
  then show ?thesis
    by (simp add: cloneAdaptationMap_def clone_entries_closed[OF valid] new_map_def
        cloned_heap_def)
qed

subsection \<open>The cloned map is owned\<close>

lemma heap_extends_cloned: "heap_extends h (cloned_heap h es)"
  by (simp add: heap_extends_def cloned_heap_def)

lemma cloned_value:
  "j < length es \<Longrightarrow>
     value_objs (cloned_heap h es) ! (length (value_objs h) + j) =
       \<lparr>propsInterceptors = length (interceptor_arrays h) + j,
        components = length (component_arrays h) + j\<rparr>"
  by (simp add: cloned_heap_def nth_append)

lemma cloned_lists:
  "j < length es \<Longrightarrow>
     lists_of (cloned_heap h es) (length (value_objs h) + j) = lists_of h (snd (es ! j))"
  by (simp add: lists_of_def propsInterceptors_of_def components_of_def cloned_value)
     (simp add: cloned_heap_def nth_append propsInterceptors_of_def components_of_def
        split: prod.splits)

lemma cloned_map:
  "map_objs (cloned_heap h es) ! length (map_objs h) =
     zip (map fst es) [length (value_objs h) ..< length (value_objs h) + length es]"
  by (simp add: cloned_heap_def)

lemma cloned_map_values:
  "map snd (map_objs (cloned_heap h es) ! length (map_objs h)) =
     [length (value_objs h) ..< length (value_objs h) + length es]"
  by (simp add: cloned_map)

lemma wf_heap_cloned:
  assumes "wf_heap h" "distinct (map fst es)"
  shows "wf_heap (cloned_heap h es)"
proof -
  have 0: "noAdaptations < length (value_objs h)" using assms by (simp add: wf_heap_def)
  have "heap_extends h (cloned_heap h es)" by (rule heap_extends_cloned)
  from heap_extends_lists[OF this assms(1) 0]
  have single: "propsInterceptors_of (cloned_heap h es) noAdaptations = []"
    "components_of (cloned_heap h es) noAdaptations = []"
    using assms(1) by (simp_all add: wf_heap_def)
  have vals: "\<forall>val \<in> set (value_objs (cloned_heap h es)).
        propsInterceptors val < length (interceptor_arrays (cloned_heap h es)) \<and>
        components val < length (component_arrays (cloned_heap h es))"
    using assms(1) by (auto simp: cloned_heap_def wf_heap_def)
  have maps: "\<forall>m \<in> set (map_objs (cloned_heap h es)).
        distinct (map fst m) \<and>
        (\<forall>v \<in> set (map snd m). v < length (value_objs (cloned_heap h es)))"
  proof
    fix m assume m: "m \<in> set (map_objs (cloned_heap h es))"
    show "distinct (map fst m) \<and>
        (\<forall>v \<in> set (map snd m). v < length (value_objs (cloned_heap h es)))"
    proof (cases "m \<in> set (map_objs h)")
      case True
      then have "distinct (map fst m)" "\<forall>v \<in> set (map snd m). v < length (value_objs h)"
        using assms(1) by (simp_all add: wf_heap_def)
      then show ?thesis by (fastforce simp: cloned_heap_def)
    next
      case False
      then have "m = zip (map fst es)
          [length (value_objs h) ..< length (value_objs h) + length es]"
        using m by (simp add: cloned_heap_def)
      then show ?thesis using assms(2) by (simp add: cloned_heap_def)
    qed
  qed
  show ?thesis
    unfolding wf_heap_def using 0 single vals maps
    by (simp add: cloned_heap_def)
qed

lemma owned_cloned:
  assumes "wf_heap h" "distinct (map fst es)"
  shows "owned h (cloned_heap h es) (length (map_objs h))"
proof -
  let ?h' = "cloned_heap h es"
  let ?vs = "map_values ?h' (length (map_objs h))"
  have vs: "?vs = {length (value_objs h) ..< length (value_objs h) + length es}"
    by (simp add: cloned_map_values map_values_def)
  have val: "value_objs ?h' ! v =
       \<lparr>propsInterceptors = length (interceptor_arrays h) + (v - length (value_objs h)),
        components = length (component_arrays h) + (v - length (value_objs h))\<rparr>"
    if "v \<in> ?vs" for v
  proof -
    from that have j: "v - length (value_objs h) < length es"
      "length (value_objs h) + (v - length (value_objs h)) = v"
      unfolding vs by auto
    show ?thesis using cloned_value[OF j(1), of h] unfolding j(2) .
  qed
  have "inj_on (\<lambda>v. propsInterceptors (value_objs ?h' ! v)) ?vs"
    by (rule inj_onI) (use val vs in auto)
  moreover have "inj_on (\<lambda>v. components (value_objs ?h' ! v)) ?vs"
    by (rule inj_onI) (use val vs in auto)
  moreover have "\<forall>v \<in> ?vs. length (value_objs h) \<le> v \<and>
        length (interceptor_arrays h) \<le> propsInterceptors (value_objs ?h' ! v) \<and>
        length (component_arrays h) \<le> components (value_objs ?h' ! v)"
    using val vs by auto
  moreover have "distinct (map snd (map_objs ?h' ! length (map_objs h)))"
    by (simp add: cloned_map_values)
  moreover have "length (map_objs h) < length (map_objs ?h')"
    by (simp add: cloned_heap_def)
  ultimately show ?thesis
    unfolding owned_def using assms heap_extends_cloned wf_heap_cloned by blast
qed

lemma entry_cloned:
  assumes "distinct (map fst es)"
  shows "entry (cloned_heap h es) (length (map_objs h)) k = map_option (lists_of h) (map_of es k)"
proof (cases "k \<in> set (map fst es)")
  case False
  then have "map_of es k = None" by (simp add: map_of_eq_None_iff)
  moreover have "map_of (zip (map fst es)
      [length (value_objs h) ..< length (value_objs h) + length es]) k = None"
    using False by (subst map_of_zip_is_None) simp_all
  ultimately show ?thesis by (simp add: entry_def Map_get_def cloned_map)
next
  case True
  then obtain j where j: "j < length es" "map fst es ! j = k"
    by (metis in_set_conv_nth length_map)
  have "map_of (zip (map fst es)
      [length (value_objs h) ..< length (value_objs h) + length es]) (map fst es ! j) =
      Some ([length (value_objs h) ..< length (value_objs h) + length es] ! j)"
    using assms j by (intro map_of_zip_nth) simp_all
  then have 1: "Map_get (length (map_objs h)) k (cloned_heap h es) =
      Some (length (value_objs h) + j)"
    using j by (simp add: Map_get_def cloned_map)
  have "(k, snd (es ! j)) \<in> set es"
    using j by (metis nth_map nth_mem prod.collapse)
  then have 2: "map_of es k = Some (snd (es ! j))" using assms by simp
  show ?thesis by (simp add: entry_def 1 2 cloned_lists j)
qed

subsection \<open>What ownership gives\<close>

lemma Map_get_value:
  "Map_get m k h = Some v \<Longrightarrow> v \<in> map_values h m"
  unfolding Map_get_def map_values_def by (metis map_of_SomeD image_eqI set_map snd_conv)

lemma owned_wf: "owned h0 h m \<Longrightarrow> wf_heap h"
  and owned_wf0: "owned h0 h m \<Longrightarrow> wf_heap h0"
  and owned_extends: "owned h0 h m \<Longrightarrow> heap_extends h0 h"
  and owned_map: "owned h0 h m \<Longrightarrow> length (map_objs h0) \<le> m \<and> m < length (map_objs h)"
  and owned_distinct_values: "owned h0 h m \<Longrightarrow> distinct (map snd (map_objs h ! m))"
  by (simp_all add: owned_def)

lemma owned_distinct_keys: "owned h0 h m \<Longrightarrow> distinct (map fst (map_objs h ! m))"
  by (simp add: owned_def wf_heap_distinct)

lemma owned_value:
  assumes "owned h0 h m" "v \<in> map_values h m"
  shows "length (value_objs h0) \<le> v" "v < length (value_objs h)"
    "length (interceptor_arrays h0) \<le> propsInterceptors (value_objs h ! v)"
    "propsInterceptors (value_objs h ! v) < length (interceptor_arrays h)"
    "length (component_arrays h0) \<le> components (value_objs h ! v)"
    "components (value_objs h ! v) < length (component_arrays h)"
proof -
  show 1: "v < length (value_objs h)"
    using assms wf_heap_map_values[of h m v] by (simp add: owned_def map_values_def)
  show "length (value_objs h0) \<le> v"
    "length (interceptor_arrays h0) \<le> propsInterceptors (value_objs h ! v)"
    "length (component_arrays h0) \<le> components (value_objs h ! v)"
    using assms unfolding owned_def by blast+
  show "propsInterceptors (value_objs h ! v) < length (interceptor_arrays h)"
    "components (value_objs h ! v) < length (component_arrays h)"
    using assms 1 wf_heap_value[of h v] by (simp_all add: owned_def)
qed

lemma owned_same_components:
  assumes "owned h0 h m" "v \<in> map_values h m"
    "w \<in> map_values h m"
    "components (value_objs h ! v) = components (value_objs h ! w)"
  shows "v = w"
  using assms unfolding owned_def by (meson inj_onD)

lemma owned_same_interceptors:
  assumes "owned h0 h m" "v \<in> map_values h m"
    "w \<in> map_values h m"
    "propsInterceptors (value_objs h ! v) = propsInterceptors (value_objs h ! w)"
  shows "v = w"
  using assms unfolding owned_def by (meson inj_onD)

lemma owned_same_key:
  assumes "owned h0 h m" "Map_get m k h = Some v" "Map_get m k' h = Some v"
  shows "k = k'"
proof -
  have "(k, v) \<in> set (map_objs h ! m)" "(k', v) \<in> set (map_objs h ! m)"
    using assms(2,3) by (simp_all add: Map_get_def map_of_SomeD)
  then show ?thesis
    using owned_distinct_values[OF assms(1)]
    by (metis distinct_map inj_onD snd_conv fst_conv)
qed


text \<open>The empty singleton of a well-formed heap is still empty in an extension.\<close>

lemma heap_extends_noAdaptations:
  assumes "wf_heap h0" "heap_extends h0 h"
  shows "noAdaptations < length (value_objs h)"
    "propsInterceptors_of h noAdaptations = []" "components_of h noAdaptations = []"
proof -
  have 0: "noAdaptations < length (value_objs h0)" using assms(1) by (simp add: wf_heap_def)
  then show "noAdaptations < length (value_objs h)"
    using heap_extends_length(3)[OF assms(2)] by simp
  show "propsInterceptors_of h noAdaptations = []" "components_of h noAdaptations = []"
    using heap_extends_lists[OF assms(2,1) 0] assms(1) by (simp_all add: wf_heap_def)
qed

lemma wf_heapI:
  assumes "wf_heap h0" "heap_extends h0 h"
    "\<forall>val \<in> set (value_objs h).
        propsInterceptors val < length (interceptor_arrays h) \<and>
        components val < length (component_arrays h)"
    "\<forall>m \<in> set (map_objs h).
        distinct (map fst m) \<and> (\<forall>v \<in> set (map snd m). v < length (value_objs h))"
  shows "wf_heap h"
  unfolding wf_heap_def using heap_extends_noAdaptations[OF assms(1,2)] assms(3,4) by simp

subsection \<open>Deleting a key\<close>

lemma heap_extends_Map_delete:
  "heap_extends h0 h \<Longrightarrow> length (map_objs h0) \<le> m \<Longrightarrow> heap_extends h0 (Map_delete m k h)"
  by (simp add: heap_extends_def Map_delete_def)

lemma owned_Map_delete:
  assumes "owned h0 h m"
  shows "owned h0 (Map_delete m k h) m"
proof -
  let ?h' = "Map_delete m k h"
  let ?E = "map_objs h ! m"
  have m: "length (map_objs h0) \<le> m" "m < length (map_objs h)"
    using owned_map[OF assms] by simp_all
  have E': "map_objs ?h' ! m = AList.delete k ?E" using m by (simp add: Map_delete_def)
  have sub: "set (map snd (AList.delete k ?E)) \<subseteq> map_values h m"
    by (auto simp: AList.delete_eq map_values_def)
  have vals: "value_objs ?h' = value_objs h" "component_arrays ?h' = component_arrays h"
    "interceptor_arrays ?h' = interceptor_arrays h"
    by (simp_all add: Map_delete_def)
  have ext: "heap_extends h0 ?h'"
    using owned_extends[OF assms] m by (simp add: heap_extends_Map_delete)
  have "\<forall>x \<in> set (map_objs ?h').
        distinct (map fst x) \<and> (\<forall>v \<in> set (map snd x). v < length (value_objs ?h'))"
  proof
    fix x assume "x \<in> set (map_objs ?h')"
    then have "x = AList.delete k ?E \<or> x \<in> set (map_objs h)"
      using set_update_subset_insert[of "map_objs h" m "AList.delete k ?E"]
      by (auto simp: Map_delete_def)
    then show "distinct (map fst x) \<and> (\<forall>v \<in> set (map snd x). v < length (value_objs ?h'))"
    proof
      assume x: "x = AList.delete k ?E"
      have "distinct (map fst x)"
        unfolding x using owned_distinct_keys[OF assms] by (rule distinct_delete)
      moreover have "\<forall>v \<in> set (map snd x). v < length (value_objs ?h')"
        unfolding x vals using sub owned_value(2)[OF assms] by blast
      ultimately show ?thesis by simp
    next
      assume "x \<in> set (map_objs h)"
      then show ?thesis using owned_wf[OF assms] unfolding vals by (simp add: wf_heap_def)
    qed
  qed
  moreover have "\<forall>val \<in> set (value_objs ?h').
        propsInterceptors val < length (interceptor_arrays ?h') \<and>
        components val < length (component_arrays ?h')"
    using owned_wf[OF assms] unfolding vals by (simp add: wf_heap_def)
  ultimately have wf: "wf_heap ?h'"
    using wf_heapI[OF owned_wf0[OF assms] ext] by blast
  have "distinct (map snd (AList.delete k ?E))"
    using owned_distinct_values[OF assms] by (simp add: AList.delete_eq distinct_map_filter)
  moreover have "inj_on (\<lambda>v. propsInterceptors (value_objs h ! v)) (set (map snd (AList.delete k ?E)))"
    "inj_on (\<lambda>v. components (value_objs h ! v)) (set (map snd (AList.delete k ?E)))"
    using assms sub unfolding owned_def by (meson inj_on_subset)+
  moreover have "\<forall>v \<in> set (map snd (AList.delete k ?E)).
        length (value_objs h0) \<le> v \<and>
        length (interceptor_arrays h0) \<le> propsInterceptors (value_objs h ! v) \<and>
        length (component_arrays h0) \<le> components (value_objs h ! v)"
    using assms sub unfolding owned_def by blast
  ultimately show ?thesis
    unfolding owned_def map_values_def E' vals using owned_wf0[OF assms] ext wf m
    by (simp add: Map_delete_def)
qed

lemma entry_Map_delete:
  assumes "m < length (map_objs h)"
  shows "entry (Map_delete m k h) m = (entry h m)(k := None)"
proof
  fix k'
  have "Map_get m k' (Map_delete m k h) = ((\<lambda>k'. Map_get m k' h)(k := None)) k'"
    using assms by (simp add: Map_get_def Map_delete_def delete_conv')
  moreover have "lists_of (Map_delete m k h) = lists_of h"
    by (rule ext) (simp add: lists_of_def Map_delete_def components_of_def propsInterceptors_of_def)
  ultimately show "entry (Map_delete m k h) m k' = ((entry h m)(k := None)) k'"
    by (simp add: entry_def)
qed

lemma owned_fold_Map_delete:
  "owned h0 h m \<Longrightarrow> owned h0 (fold (\<lambda>r. Map_delete m (ref_id r)) rs h) m"
  by (induction rs arbitrary: h) (simp_all add: owned_Map_delete)

lemma entry_fold_Map_delete:
  "owned h0 h m \<Longrightarrow>
     entry (fold (\<lambda>r. Map_delete m (ref_id r)) rs h) m k =
       (if k \<in> ref_id ` set rs then None else entry h m k)"
proof (induction rs arbitrary: h)
  case Nil
  then show ?case by simp
next
  case (Cons r rs)
  have "owned h0 (Map_delete m (ref_id r) h) m" using Cons.prems by (rule owned_Map_delete)
  from Cons.IH[OF this] show ?case
    using owned_map[OF Cons.prems] by (simp add: entry_Map_delete)
qed

subsection \<open>Filtering the components of a value\<close>

lemma exclude_from_value_closed:
  "exclude_from_value S T v h =
     h\<lparr>component_arrays := component_arrays h @
          [filter (\<lambda>c. case plugin (adaptation c) of None \<Rightarrow> True | Some p \<Rightarrow> p \<notin> S)
             (components_of h v), kept S T (components_of h v)],
       value_objs := (value_objs h)
          [v := (value_objs h ! v)\<lparr>components := Suc (length (component_arrays h))\<rparr>]\<rparr>"
  by (simp add: exclude_from_value_def new_component_array_def set_components_def kept_def
      components_of_def)

lemma exclude_from_value_frame:
  "map_objs (exclude_from_value S T v h) = map_objs h"
  "interceptor_arrays (exclude_from_value S T v h) = interceptor_arrays h"
  "length (value_objs (exclude_from_value S T v h)) = length (value_objs h)"
  "length (component_arrays (exclude_from_value S T v h)) = length (component_arrays h) + 2"
  "w \<noteq> v \<Longrightarrow> value_objs (exclude_from_value S T v h) ! w = value_objs h ! w"
  "a < length (component_arrays h) \<Longrightarrow>
     component_arrays (exclude_from_value S T v h) ! a = component_arrays h ! a"
  by (simp_all add: exclude_from_value_closed nth_append)

lemma exclude_from_value_at:
  assumes "v < length (value_objs h)"
  shows "value_objs (exclude_from_value S T v h) ! v =
      (value_objs h ! v)\<lparr>components := Suc (length (component_arrays h))\<rparr>"
    and "components_of (exclude_from_value S T v h) v = kept S T (components_of h v)"
  using assms by (simp_all add: exclude_from_value_closed components_of_def nth_append)

lemma owned_exclude_from_value:
  assumes "owned h0 h m" "v \<in> map_values h m"
  shows "owned h0 (exclude_from_value S T v h) m"
proof -
  let ?h' = "exclude_from_value S T v h"
  let ?vs = "map_values h m"
  note fr = exclude_from_value_frame[where S=S and T=T and v=v and h=h]
  note v = owned_value[OF assms]
  have at: "value_objs ?h' ! v =
      (value_objs h ! v)\<lparr>components := Suc (length (component_arrays h))\<rparr>"
    using v(2) by (rule exclude_from_value_at)
  have ext: "heap_extends h0 ?h'"
    using owned_extends[OF assms(1)] v(1) heap_extends_length(2)[OF owned_extends[OF assms(1)]]
    by (simp add: heap_extends_def exclude_from_value_closed)
  have "\<forall>val \<in> set (value_objs ?h').
        propsInterceptors val < length (interceptor_arrays ?h') \<and>
        components val < length (component_arrays ?h')"
  proof
    fix val assume "val \<in> set (value_objs ?h')"
    then have "val = (value_objs h ! v)\<lparr>components := Suc (length (component_arrays h))\<rparr>
        \<or> val \<in> set (value_objs h)"
      using set_update_subset_insert[of "value_objs h" v]
      by (auto simp: exclude_from_value_closed)
    then show "propsInterceptors val < length (interceptor_arrays ?h') \<and>
        components val < length (component_arrays ?h')"
      using v(4) owned_wf[OF assms(1)] unfolding fr by (auto simp: wf_heap_def)
  qed
  moreover have "\<forall>x \<in> set (map_objs ?h').
        distinct (map fst x) \<and> (\<forall>w \<in> set (map snd x). w < length (value_objs ?h'))"
    using owned_wf[OF assms(1)] unfolding fr by (simp add: wf_heap_def)
  ultimately have wf: "wf_heap ?h'"
    using wf_heapI[OF owned_wf0[OF assms(1)] ext] by blast
  have bounds: "\<forall>w \<in> ?vs.
        length (value_objs h0) \<le> w \<and>
        length (interceptor_arrays h0) \<le> propsInterceptors (value_objs ?h' ! w) \<and>
        length (component_arrays h0) \<le> components (value_objs ?h' ! w)"
  proof
    fix w assume w: "w \<in> ?vs"
    note ow = owned_value[OF assms(1) w]
    show "length (value_objs h0) \<le> w \<and>
        length (interceptor_arrays h0) \<le> propsInterceptors (value_objs ?h' ! w) \<and>
        length (component_arrays h0) \<le> components (value_objs ?h' ! w)"
    proof (cases "w = v")
      case True
      then show ?thesis using v at by simp
    next
      case False
      then show ?thesis using ow by (simp add: fr)
    qed
  qed
  have inj_i: "inj_on (\<lambda>w. propsInterceptors (value_objs ?h' ! w)) ?vs"
  proof (rule inj_onI)
    fix x y assume xy: "x \<in> ?vs" "y \<in> ?vs"
      "propsInterceptors (value_objs ?h' ! x) = propsInterceptors (value_objs ?h' ! y)"
    have "propsInterceptors (value_objs ?h' ! w) = propsInterceptors (value_objs h ! w)" for w
      by (cases "w = v") (simp_all add: at fr)
    then show "x = y" using xy owned_same_interceptors[OF assms(1)] by simp
  qed
  have inj_c: "inj_on (\<lambda>w. components (value_objs ?h' ! w)) ?vs"
  proof (rule inj_onI)
    fix x y assume xy: "x \<in> ?vs" "y \<in> ?vs"
      "components (value_objs ?h' ! x) = components (value_objs ?h' ! y)"
    have old: "components (value_objs ?h' ! w) < Suc (length (component_arrays h))"
      if "w \<in> ?vs" "w \<noteq> v" for w
      using owned_value(6)[OF assms(1) that(1)] that(2) by (simp add: fr)
    show "x = y"
    proof (cases "x = v \<or> y = v")
      case True
      have "False" if "x = v" "y \<noteq> v"
        using that xy(3) old[OF xy(2) that(2)] at by simp
      moreover have "False" if "y = v" "x \<noteq> v"
        using that xy(3) old[OF xy(1) that(2)] at by simp
      ultimately show ?thesis using True by blast
    next
      case False
      then show ?thesis using xy owned_same_components[OF assms(1)] by (simp add: fr)
    qed
  qed
  have mv: "map_values ?h' m = map_values h m" by (simp add: map_values_def fr(1))
  show ?thesis
    unfolding owned_def fr(1) mv
    using owned_wf0[OF assms(1)] ext wf owned_map[OF assms(1)]
      owned_distinct_values[OF assms(1)] bounds inj_i inj_c
    by simp
qed

lemma lists_of_exclude_from_value:
  assumes "owned h0 h m" "v \<in> map_values h m"
    "w \<in> map_values h m"
  shows "lists_of (exclude_from_value S T v h) w =
     (if w = v then (propsInterceptors_of h w, kept S T (components_of h w)) else lists_of h w)"
proof (cases "w = v")
  case True
  then show ?thesis
    using owned_value(2)[OF assms(1,2)]
    by (simp add: lists_of_def exclude_from_value_at)
       (simp add: propsInterceptors_of_def exclude_from_value_closed)
next
  case False
  then show ?thesis
    using owned_value(6)[OF assms(1,3)]
    by (simp add: lists_of_def propsInterceptors_of_def components_of_def
        exclude_from_value_frame)
qed

lemma fold_exclude_from_value:
  assumes "owned h0 h m" "set vs \<subseteq> map_values h m" "distinct vs"
  shows "owned h0 (fold (exclude_from_value S T) vs h) m \<and>
     map_objs (fold (exclude_from_value S T) vs h) = map_objs h \<and>
     (\<forall>w \<in> map_values h m.
        lists_of (fold (exclude_from_value S T) vs h) w =
          (if w \<in> set vs then (propsInterceptors_of h w, kept S T (components_of h w))
           else lists_of h w))"
  using assms
proof (induction vs arbitrary: h)
  case Nil
  then show ?case by simp
next
  case (Cons v vs)
  let ?h1 = "exclude_from_value S T v h"
  have v: "v \<in> map_values h m" using Cons.prems(2) by simp
  have o1: "owned h0 ?h1 m" using Cons.prems(1) v by (rule owned_exclude_from_value)
  have m1: "map_objs ?h1 = map_objs h" by (rule exclude_from_value_frame)
  have mv1: "map_values ?h1 m = map_values h m" by (simp add: m1 map_values_def)
  have "set vs \<subseteq> map_values ?h1 m" using Cons.prems(2) by (simp add: mv1)
  from Cons.IH[OF o1 this] Cons.prems(3)
  have IH: "owned h0 (fold (exclude_from_value S T) vs ?h1) m"
    "map_objs (fold (exclude_from_value S T) vs ?h1) = map_objs h"
    "\<forall>w \<in> map_values h m.
        lists_of (fold (exclude_from_value S T) vs ?h1) w =
          (if w \<in> set vs then (propsInterceptors_of ?h1 w, kept S T (components_of ?h1 w))
           else lists_of ?h1 w)"
    by (simp_all add: m1 mv1)
  have "lists_of (fold (exclude_from_value S T) (v # vs) h) w =
          (if w \<in> set (v # vs) then (propsInterceptors_of h w, kept S T (components_of h w))
           else lists_of h w)"
    if w: "w \<in> map_values h m" for w
  proof -
    note l = lists_of_exclude_from_value[OF Cons.prems(1) v w, where S=S and T=T]
    show ?thesis
    proof (cases "w = v")
      case True
      then have "w \<notin> set vs" using Cons.prems(3) by simp
      then show ?thesis using IH(3) w l True by simp
    next
      case False
      then have "propsInterceptors_of ?h1 w = propsInterceptors_of h w"
        "components_of ?h1 w = components_of h w"
        using l by (simp_all add: lists_of_def)
      then show ?thesis using IH(3) w l False by simp
    qed
  qed
  then show ?case using IH(1,2) by simp
qed

lemma exclude_all_values:
  fixes S :: "BackstagePlugin set" and T :: "string set"
  assumes "owned h0 h m"
  defines "h' \<equiv> fold (exclude_from_value S T) (map snd (map_objs h ! m)) h"
  shows "owned h0 h' m" and "entry h' m k = map_option (filtered S T) (entry h m k)"
proof -
  have sub: "set (map snd (map_objs h ! m)) \<subseteq> map_values h m"
    by (simp add: map_values_def)
  note f0 = fold_exclude_from_value[OF assms(1) sub owned_distinct_values[OF assms(1)],
      where S=S and T=T, folded h'_def]
  have f: "owned h0 h' m" "map_objs h' = map_objs h"
    using f0 by blast+
  have f3: "lists_of h' w = (propsInterceptors_of h w, kept S T (components_of h w))"
    if "w \<in> map_values h m" for w
  proof -
    have w: "w \<in> set (map snd (map_objs h ! m))" using that by (simp add: map_values_def)
    from f0 that have "lists_of h' w =
        (if w \<in> set (map snd (map_objs h ! m))
         then (propsInterceptors_of h w, kept S T (components_of h w)) else lists_of h w)"
      by blast
    then show ?thesis using w by (simp only: if_True)
  qed
  show "owned h0 h' m" by (rule f)
  show "entry h' m k = map_option (filtered S T) (entry h m k)"
  proof (cases "Map_get m k h")
    case None
    then show ?thesis using f(2) by (simp add: entry_def Map_get_def)
  next
    case (Some v)
    then have "v \<in> map_values h m" by (rule Map_get_value)
    from f3[OF this] show ?thesis
      using f(2) Some by (simp add: entry_def Map_get_def filtered_def lists_of_def)
  qed
qed

subsection \<open>ensureMapValue\<close>

lemma ensureMapValue_Some:
  "Map_get m k h = Some v \<Longrightarrow> ensureMapValue m k h = (v, h)"
  by (simp add: ensureMapValue_def)

lemma Map_get_None_fresh: "Map_get m k h = None \<Longrightarrow> k \<notin> fst ` set (map_objs h ! m)"
  by (simp add: Map_get_def map_of_eq_None_iff)

lemma ensureMapValue_None:
  assumes "Map_get m k h = None"
  shows "ensureMapValue m k h = (length (value_objs h), with_new_value m k h)"
  using assms update_fresh_key[OF Map_get_None_fresh[OF assms], of "length (value_objs h)"]
  by (simp add: ensureMapValue_def new_interceptor_array_def new_component_array_def
      new_value_def Map_set_def with_new_value_def)

lemma with_new_value_frame:
  "w < length (value_objs h) \<Longrightarrow> value_objs (with_new_value m k h) ! w = value_objs h ! w"
  "value_objs (with_new_value m k h) ! length (value_objs h) =
     \<lparr>propsInterceptors = length (interceptor_arrays h), components = length (component_arrays h)\<rparr>"
  "a < length (interceptor_arrays h) \<Longrightarrow>
     interceptor_arrays (with_new_value m k h) ! a = interceptor_arrays h ! a"
  "b < length (component_arrays h) \<Longrightarrow>
     component_arrays (with_new_value m k h) ! b = component_arrays h ! b"
  "interceptor_arrays (with_new_value m k h) ! length (interceptor_arrays h) = []"
  "component_arrays (with_new_value m k h) ! length (component_arrays h) = []"
  "m < length (map_objs h) \<Longrightarrow>
     map_objs (with_new_value m k h) ! m = map_objs h ! m @ [(k, length (value_objs h))]"
  "length (value_objs (with_new_value m k h)) = Suc (length (value_objs h))"
  "length (interceptor_arrays (with_new_value m k h)) = Suc (length (interceptor_arrays h))"
  "length (component_arrays (with_new_value m k h)) = Suc (length (component_arrays h))"
  "length (map_objs (with_new_value m k h)) = length (map_objs h)"
  by (simp_all add: with_new_value_def nth_append)

lemma map_values_with_new_value:
  "m < length (map_objs h) \<Longrightarrow>
     map_values (with_new_value m k h) m = insert (length (value_objs h)) (map_values h m)"
  by (simp add: map_values_def with_new_value_frame)

lemma Map_get_with_new_value:
  assumes "m < length (map_objs h)" "Map_get m k h = None"
  shows "Map_get m k' (with_new_value m k h) =
      (if k' = k then Some (length (value_objs h)) else Map_get m k' h)"
  using assms by (auto simp: Map_get_def with_new_value_frame map_add_def split: option.splits)

lemma owned_with_new_value:
  assumes "owned h0 h m" "Map_get m k h = None"
  shows "owned h0 (with_new_value m k h) m"
proof -
  let ?h' = "with_new_value m k h"
  let ?E = "map_objs h ! m"
  note fr = with_new_value_frame[where m=m and k=k and h=h]
  note m = owned_map[OF assms(1)]
  note len = heap_extends_length[OF owned_extends[OF assms(1)]]
  have mv: "map_values ?h' m = insert (length (value_objs h)) (map_values h m)"
    using m by (simp add: map_values_with_new_value)
  have old: "w < length (value_objs h)" if "w \<in> map_values h m" for w
    using owned_value(2)[OF assms(1) that] .
  have ext: "heap_extends h0 ?h'"
    using owned_extends[OF assms(1)] m len
    by (simp add: heap_extends_def with_new_value_def)
  have "\<forall>val \<in> set (value_objs ?h').
        propsInterceptors val < length (interceptor_arrays ?h') \<and>
        components val < length (component_arrays ?h')"
    using owned_wf[OF assms(1)] by (auto simp: wf_heap_def with_new_value_def)
  moreover have "\<forall>x \<in> set (map_objs ?h').
        distinct (map fst x) \<and> (\<forall>w \<in> set (map snd x). w < length (value_objs ?h'))"
  proof
    fix x assume "x \<in> set (map_objs ?h')"
    then have "x = ?E @ [(k, length (value_objs h))] \<or> x \<in> set (map_objs h)"
      using set_update_subset_insert[of "map_objs h" m]
      by (auto simp: with_new_value_def)
    then show "distinct (map fst x) \<and> (\<forall>w \<in> set (map snd x). w < length (value_objs ?h'))"
    proof
      assume x: "x = ?E @ [(k, length (value_objs h))]"
      have "distinct (map fst x)"
        unfolding x using owned_distinct_keys[OF assms(1)] Map_get_None_fresh[OF assms(2)]
        by simp
      moreover have "\<forall>w \<in> set (map snd ?E). w < length (value_objs h)"
        using old unfolding map_values_def by blast
      then have "\<forall>w \<in> set (map snd x). w < length (value_objs ?h')"
        unfolding x fr by (auto simp: less_Suc_eq)
      ultimately show ?thesis by simp
    next
      assume "x \<in> set (map_objs h)"
      then have "distinct (map fst x)" "\<forall>w \<in> set (map snd x). w < length (value_objs h)"
        using owned_wf[OF assms(1)] by (simp_all add: wf_heap_def)
      then show ?thesis unfolding fr by fastforce
    qed
  qed
  ultimately have wf: "wf_heap ?h'"
    using wf_heapI[OF owned_wf0[OF assms(1)] ext] by blast
  have dist: "distinct (map snd (map_objs ?h' ! m))"
    using m owned_distinct_values[OF assms(1)] old
    by (auto simp: fr map_values_def)
  have val: "value_objs ?h' ! w = value_objs h ! w" if "w \<in> map_values h m" for w
    using old[OF that] by (simp add: fr)
  have bounds: "\<forall>w \<in> map_values ?h' m.
        length (value_objs h0) \<le> w \<and>
        length (interceptor_arrays h0) \<le> propsInterceptors (value_objs ?h' ! w) \<and>
        length (component_arrays h0) \<le> components (value_objs ?h' ! w)"
    unfolding mv using len owned_value(1,3,5)[OF assms(1)] val by (auto simp: fr)
  have inj_i: "inj_on (\<lambda>w. propsInterceptors (value_objs ?h' ! w)) (map_values ?h' m)"
    unfolding mv
  proof (rule inj_onI)
    fix x y
    assume xy: "x \<in> insert (length (value_objs h)) (map_values h m)"
      "y \<in> insert (length (value_objs h)) (map_values h m)"
      "propsInterceptors (value_objs ?h' ! x) = propsInterceptors (value_objs ?h' ! y)"
    have lt: "propsInterceptors (value_objs ?h' ! w) < length (interceptor_arrays h)"
      if "w \<in> map_values h m" for w
      using owned_value(4)[OF assms(1) that] val[OF that] by simp
    show "x = y"
    proof (cases "x \<in> map_values h m \<and> y \<in> map_values h m")
      case True
      then show ?thesis using xy(3) val owned_same_interceptors[OF assms(1)] by simp
    next
      case False
      have "False" if "x = length (value_objs h)" "y \<in> map_values h m"
        using that xy(3) lt[OF that(2)] by (simp add: fr)
      moreover have "False" if "y = length (value_objs h)" "x \<in> map_values h m"
        using that xy(3) lt[OF that(2)] by (simp add: fr)
      ultimately show ?thesis using False xy(1,2) by blast
    qed
  qed
  have inj_c: "inj_on (\<lambda>w. components (value_objs ?h' ! w)) (map_values ?h' m)"
    unfolding mv
  proof (rule inj_onI)
    fix x y
    assume xy: "x \<in> insert (length (value_objs h)) (map_values h m)"
      "y \<in> insert (length (value_objs h)) (map_values h m)"
      "components (value_objs ?h' ! x) = components (value_objs ?h' ! y)"
    have lt: "components (value_objs ?h' ! w) < length (component_arrays h)"
      if "w \<in> map_values h m" for w
      using owned_value(6)[OF assms(1) that] val[OF that] by simp
    show "x = y"
    proof (cases "x \<in> map_values h m \<and> y \<in> map_values h m")
      case True
      then show ?thesis using xy(3) val owned_same_components[OF assms(1)] by simp
    next
      case False
      have "False" if "x = length (value_objs h)" "y \<in> map_values h m"
        using that xy(3) lt[OF that(2)] by (simp add: fr)
      moreover have "False" if "y = length (value_objs h)" "x \<in> map_values h m"
        using that xy(3) lt[OF that(2)] by (simp add: fr)
      ultimately show ?thesis using False xy(1,2) by blast
    qed
  qed
  show ?thesis
    unfolding owned_def
    using owned_wf0[OF assms(1)] ext wf m dist bounds inj_i inj_c by (simp add: fr)
qed

lemma lists_of_with_new_value:
  assumes "wf_heap h" "w < length (value_objs h)"
  shows "lists_of (with_new_value m k h) w = lists_of h w"
  using assms wf_heap_value[OF assms]
  by (simp add: lists_of_def propsInterceptors_of_def components_of_def with_new_value_frame)

lemma lists_of_new_value:
  "lists_of (with_new_value m k h) (length (value_objs h)) = ([], [])"
  by (simp add: lists_of_def propsInterceptors_of_def components_of_def with_new_value_frame)

lemma entry_with_new_value:
  assumes "owned h0 h m" "Map_get m k h = None"
  shows "entry (with_new_value m k h) m = (entry h m)(k \<mapsto> ([], []))"
proof
  fix k'
  note m = owned_map[OF assms(1)]
  have get: "Map_get m k' (with_new_value m k h) =
      (if k' = k then Some (length (value_objs h)) else Map_get m k' h)" for k'
    using m assms(2) by (simp add: Map_get_with_new_value)
  show "entry (with_new_value m k h) m k' = ((entry h m)(k \<mapsto> ([], []))) k'"
  proof (cases "k' = k")
    case True
    then show ?thesis by (simp add: entry_def get lists_of_new_value)
  next
    case False
    show ?thesis
    proof (cases "Map_get m k' h")
      case None
      then show ?thesis using False by (simp add: entry_def get)
    next
      case (Some w)
      then have "w < length (value_objs h)"
        using owned_value(2)[OF assms(1) Map_get_value] by blast
      then show ?thesis
        using False Some owned_wf[OF assms(1)]
        by (simp add: entry_def get lists_of_with_new_value)
    qed
  qed
qed

lemma ensureMapValue_owned:
  assumes "owned h0 h m" "ensureMapValue m k h = (v, h')"
  shows "owned h0 h' m" and "Map_get m k h' = Some v"
    and "entry h' m = (entry h m)(k \<mapsto> (case entry h m k of None \<Rightarrow> ([], []) | Some e \<Rightarrow> e))"
proof -
  have "owned h0 h' m \<and> Map_get m k h' = Some v \<and>
    entry h' m = (entry h m)(k \<mapsto> (case entry h m k of None \<Rightarrow> ([], []) | Some e \<Rightarrow> e))"
  proof (cases "Map_get m k h")
    case None
    then have eq: "v = length (value_objs h)" "h' = with_new_value m k h"
      using assms(2) by (simp_all add: ensureMapValue_None)
    have "Map_get m k h' = Some v"
      using owned_map[OF assms(1)] None
      by (simp add: eq Map_get_with_new_value)
    moreover have "entry h m k = None" using None by (simp add: entry_def)
    ultimately show ?thesis
      using owned_with_new_value[OF assms(1) None] entry_with_new_value[OF assms(1) None]
      by (simp add: eq)
  next
    case (Some w)
    then have eq: "v = w" "h' = h" using assms(2) by (simp_all add: ensureMapValue_Some)
    have "(entry h m)(k \<mapsto> (case entry h m k of None \<Rightarrow> ([], []) | Some e \<Rightarrow> e)) = entry h m"
      using Some by (auto simp: entry_def)
    then show ?thesis using assms(1) Some by (simp add: eq)
  qed
  then show "owned h0 h' m" and "Map_get m k h' = Some v"
    and "entry h' m = (entry h m)(k \<mapsto> (case entry h m k of None \<Rightarrow> ([], []) | Some e \<Rightarrow> e))"
    by blast+
qed

subsection \<open>Pushing onto the arrays of an owned value\<close>

lemma owned_same_heap_shape:
  assumes "owned h0 h m" "heap_extends h0 h'"
    "value_objs h' = value_objs h" "map_objs h' = map_objs h"
    "length (interceptor_arrays h') = length (interceptor_arrays h)"
    "length (component_arrays h') = length (component_arrays h)"
  shows "owned h0 h' m"
proof -
  have "wf_heap h'"
    using owned_wf[OF assms(1)] assms(3-6)
    by (intro wf_heapI[OF owned_wf0[OF assms(1)] assms(2)]) (simp_all add: wf_heap_def)
  moreover have "map_values h' m = map_values h m" by (simp add: map_values_def assms(4))
  ultimately show ?thesis
    using assms unfolding owned_def by simp
qed

lemma push_component_frame:
  "value_objs (push_component a e h) = value_objs h"
  "map_objs (push_component a e h) = map_objs h"
  "interceptor_arrays (push_component a e h) = interceptor_arrays h"
  "length (component_arrays (push_component a e h)) = length (component_arrays h)"
  by (simp_all add: push_component_def)

lemma push_interceptor_frame:
  "value_objs (push_interceptor a e h) = value_objs h"
  "map_objs (push_interceptor a e h) = map_objs h"
  "component_arrays (push_interceptor a e h) = component_arrays h"
  "length (interceptor_arrays (push_interceptor a e h)) = length (interceptor_arrays h)"
  by (simp_all add: push_interceptor_def)

lemma owned_push_component:
  assumes "owned h0 h m" "v \<in> map_values h m"
  shows "owned h0 (push_component (components (value_objs h ! v)) e h) m"
proof -
  have "heap_extends h0 (push_component (components (value_objs h ! v)) e h)"
    using owned_extends[OF assms(1)] owned_value(5)[OF assms]
    by (simp add: heap_extends_def push_component_def)
  then show ?thesis
    by (rule owned_same_heap_shape[OF assms(1)]) (simp_all add: push_component_frame)
qed

lemma owned_push_interceptor:
  assumes "owned h0 h m" "v \<in> map_values h m"
  shows "owned h0 (push_interceptor (propsInterceptors (value_objs h ! v)) e h) m"
proof -
  have "heap_extends h0 (push_interceptor (propsInterceptors (value_objs h ! v)) e h)"
    using owned_extends[OF assms(1)] owned_value(3)[OF assms]
    by (simp add: heap_extends_def push_interceptor_def)
  then show ?thesis
    by (rule owned_same_heap_shape[OF assms(1)]) (simp_all add: push_interceptor_frame)
qed

lemma lists_of_push_component:
  assumes "owned h0 h m" "v \<in> map_values h m" "w \<in> map_values h m"
  shows "lists_of (push_component (components (value_objs h ! v)) e h) w =
     (if w = v then (propsInterceptors_of h v, components_of h v @ [e]) else lists_of h w)"
proof (cases "w = v")
  case True
  then show ?thesis
    using owned_value(6)[OF assms(1,2)]
    by (simp add: lists_of_def propsInterceptors_of_def components_of_def push_component_def)
next
  case False
  then have "components (value_objs h ! w) \<noteq> components (value_objs h ! v)"
    using owned_same_components[OF assms(1,3,2)] by blast
  then show ?thesis
    using False
    by (simp add: lists_of_def propsInterceptors_of_def components_of_def push_component_def)
qed

lemma lists_of_push_interceptor:
  assumes "owned h0 h m" "v \<in> map_values h m" "w \<in> map_values h m"
  shows "lists_of (push_interceptor (propsInterceptors (value_objs h ! v)) e h) w =
     (if w = v then (propsInterceptors_of h v @ [e], components_of h v) else lists_of h w)"
proof (cases "w = v")
  case True
  then show ?thesis
    using owned_value(4)[OF assms(1,2)]
    by (simp add: lists_of_def propsInterceptors_of_def components_of_def push_interceptor_def)
next
  case False
  then have "propsInterceptors (value_objs h ! w) \<noteq> propsInterceptors (value_objs h ! v)"
    using owned_same_interceptors[OF assms(1,3,2)] by blast
  then show ?thesis
    using False
    by (simp add: lists_of_def propsInterceptors_of_def components_of_def push_interceptor_def)
qed

text \<open>A change of the lists behind the value of one key changes the entry of that key only.\<close>

lemma entry_update_value:
  assumes "owned h0 h m" "Map_get m k h = Some v" "map_objs h' = map_objs h"
    "\<And>w. w \<in> map_values h m \<Longrightarrow> lists_of h' w = (if w = v then new else lists_of h w)"
  shows "entry h' m = (entry h m)(k \<mapsto> new)"
proof
  fix k'
  have get: "Map_get m k' h' = Map_get m k' h" for k' by (simp add: Map_get_def assms(3))
  show "entry h' m k' = ((entry h m)(k \<mapsto> new)) k'"
  proof (cases "Map_get m k' h")
    case None
    then have "k' \<noteq> k" using assms(2) by auto
    then show ?thesis using None by (simp add: entry_def get)
  next
    case (Some w)
    have w: "w \<in> map_values h m" using Some by (rule Map_get_value)
    show ?thesis
    proof (cases "k' = k")
      case True
      then have "w = v" using Some assms(2) by simp
      then show ?thesis using True Some assms(4)[OF w] by (simp add: entry_def get)
    next
      case False
      then have "w \<noteq> v" using owned_same_key[OF assms(1) Some] assms(2) by blast
      then show ?thesis using False Some assms(4)[OF w] by (simp add: entry_def get)
    qed
  qed
qed

lemma entry_push_component:
  assumes "owned h0 h m" "Map_get m k h = Some v"
  shows "entry (push_component (components (value_objs h ! v)) e h) m =
     (entry h m)(k \<mapsto> (propsInterceptors_of h v, components_of h v @ [e]))"
  using assms lists_of_push_component[OF assms(1) Map_get_value[OF assms(2)]]
  by (intro entry_update_value) (simp_all add: push_component_frame)

lemma entry_push_interceptor:
  assumes "owned h0 h m" "Map_get m k h = Some v"
  shows "entry (push_interceptor (propsInterceptors (value_objs h ! v)) e h) m =
     (entry h m)(k \<mapsto> (propsInterceptors_of h v @ [e], components_of h v))"
  using assms lists_of_push_interceptor[OF assms(1) Map_get_value[OF assms(2)]]
  by (intro entry_update_value) (simp_all add: push_interceptor_frame)

subsection \<open>appendAdaptationMap\<close>

lemma entry_unchanged:
  "entry h m k = Some e \<Longrightarrow> (entry h m)(k \<mapsto> e) = entry h m"
  by auto

lemma entry_Map_get:
  "Map_get m k h = Some v \<Longrightarrow> entry h m k = Some (propsInterceptors_of h v, components_of h v)"
  by (simp add: entry_def lists_of_def)

lemma add_component_step:
  fixes a :: ComponentAdaptation
  assumes "owned h0 h m" "Map_get m k h = Some v"
  defines "h' \<equiv>
     (case Adaptation (spec a) of
        Some f \<Rightarrow>
          (let arr = components (value_objs h ! v) in
           if find (\<lambda>c. key (adaptation c) = key a) (component_arrays h ! arr) = None
           then push_component arr \<lparr>component = f, adaptation = a\<rparr> h
           else h)
      | None \<Rightarrow> h)"
  shows "owned h0 h' m" and "Map_get m k h' = Some v"
    and "entry h' m =
      (entry h m)(k \<mapsto> (propsInterceptors_of h v, add_component a (components_of h v)))"
proof -
  note v = Map_get_value[OF assms(2)]
  note same = entry_unchanged[OF entry_Map_get[OF assms(2)]]
  define goal where "goal \<longleftrightarrow> owned h0 h' m \<and> Map_get m k h' = Some v \<and> entry h' m =
      (entry h m)(k \<mapsto> (propsInterceptors_of h v, add_component a (components_of h v)))"
  have skip: goal if "h' = h" "add_component a (components_of h v) = components_of h v"
    unfolding goal_def using that assms(1,2) same by simp
  have goal
  proof (cases "Adaptation (spec a)")
    case None
    then show ?thesis by (intro skip) (simp_all add: h'_def add_component_def)
  next
    case (Some f)
    show ?thesis
    proof (cases "find (\<lambda>c. key (adaptation c) = key a) (components_of h v) = None")
      case True
      then have h': "h' = push_component (components (value_objs h ! v))
          \<lparr>component = f, adaptation = a\<rparr> h"
        using Some by (simp add: h'_def components_of_def)
      have "add_component a (components_of h v) =
          components_of h v @ [\<lparr>component = f, adaptation = a\<rparr>]"
        using Some True by (simp add: add_component_def)
      then show ?thesis
        unfolding goal_def
        using owned_push_component[OF assms(1) v] entry_push_component[OF assms(1,2)] assms(2)
        by (simp add: h' Map_get_def push_component_frame)
    next
      case False
      then show ?thesis using Some
        by (intro skip) (auto simp: h'_def add_component_def components_of_def Let_def)
    qed
  qed
  then show "owned h0 h' m" and "Map_get m k h' = Some v"
    and "entry h' m =
      (entry h m)(k \<mapsto> (propsInterceptors_of h v, add_component a (components_of h v)))"
    unfolding goal_def by blast+
qed

lemma add_interceptor_step:
  fixes a :: ComponentAdaptation
  assumes "owned h0 h m" "Map_get m k h = Some v"
  defines "h' \<equiv>
     (case interceptProps (spec a) of
        Some f \<Rightarrow>
          (let arr = propsInterceptors (value_objs h ! v) in
           if find (\<lambda>i. key (interceptor_adaptation i) = key a) (interceptor_arrays h ! arr)
                = None
           then push_interceptor arr \<lparr>propsInterceptor = f, interceptor_adaptation = a\<rparr> h
           else h)
      | None \<Rightarrow> h)"
  shows "owned h0 h' m" and "Map_get m k h' = Some v"
    and "entry h' m =
      (entry h m)(k \<mapsto> (add_interceptor a (propsInterceptors_of h v), components_of h v))"
proof -
  note v = Map_get_value[OF assms(2)]
  note same = entry_unchanged[OF entry_Map_get[OF assms(2)]]
  define goal where "goal \<longleftrightarrow> owned h0 h' m \<and> Map_get m k h' = Some v \<and> entry h' m =
      (entry h m)(k \<mapsto> (add_interceptor a (propsInterceptors_of h v), components_of h v))"
  have skip: goal
    if "h' = h" "add_interceptor a (propsInterceptors_of h v) = propsInterceptors_of h v"
    unfolding goal_def using that assms(1,2) same by simp
  have goal
  proof (cases "interceptProps (spec a)")
    case None
    then show ?thesis by (intro skip) (simp_all add: h'_def add_interceptor_def)
  next
    case (Some f)
    show ?thesis
    proof (cases "find (\<lambda>i. key (interceptor_adaptation i) = key a)
        (propsInterceptors_of h v) = None")
      case True
      then have h': "h' = push_interceptor (propsInterceptors (value_objs h ! v))
          \<lparr>propsInterceptor = f, interceptor_adaptation = a\<rparr> h"
        using Some by (simp add: h'_def propsInterceptors_of_def)
      have "add_interceptor a (propsInterceptors_of h v) =
          propsInterceptors_of h v @ [\<lparr>propsInterceptor = f, interceptor_adaptation = a\<rparr>]"
        using Some True by (simp add: add_interceptor_def)
      then show ?thesis
        unfolding goal_def
        using owned_push_interceptor[OF assms(1) v] entry_push_interceptor[OF assms(1,2)]
          assms(2)
        by (simp add: h' Map_get_def push_interceptor_frame)
    next
      case False
      then show ?thesis using Some
        by (intro skip) (auto simp: h'_def add_interceptor_def propsInterceptors_of_def Let_def)
    qed
  qed
  then show "owned h0 h' m" and "Map_get m k h' = Some v"
    and "entry h' m =
      (entry h m)(k \<mapsto> (add_interceptor a (propsInterceptors_of h v), components_of h v))"
    unfolding goal_def by blast+
qed

lemma append_adaptation_owned:
  assumes "owned h0 h m"
  shows "owned h0 (append_adaptation m a h) m"
    and "entry (append_adaptation m a h) m = with_adaptation a (entry h m)"
proof -
  let ?k = "ref_id (ref a)"
  obtain v h1 where e: "ensureMapValue m ?k h = (v, h1)" by (cases "ensureMapValue m ?k h")
  note 1 = ensureMapValue_owned[OF assms e]
  define e0 where "e0 = (case entry h m ?k of None \<Rightarrow> ([], []) | Some e \<Rightarrow> e)"
  have l1: "propsInterceptors_of h1 v = fst e0" "components_of h1 v = snd e0"
    using 1(3) entry_Map_get[OF 1(2)] unfolding e0_def
    by (metis fun_upd_same option.inject fst_conv, metis fun_upd_same option.inject snd_conv)
  define h2 where "h2 =
     (case Adaptation (spec a) of
        Some f \<Rightarrow>
          (let arr = components (value_objs h1 ! v) in
           if find (\<lambda>c. key (adaptation c) = key a) (component_arrays h1 ! arr) = None
           then push_component arr \<lparr>component = f, adaptation = a\<rparr> h1
           else h1)
      | None \<Rightarrow> h1)"
  note 2 = add_component_step[OF 1(1,2), where a=a, folded h2_def]
  have l2: "propsInterceptors_of h2 v = fst e0" "components_of h2 v = add_component a (snd e0)"
    using 2(3) entry_Map_get[OF 2(2)] unfolding l1
    by (metis fun_upd_same option.inject fst_conv, metis fun_upd_same option.inject snd_conv)
  define h3 where "h3 =
     (case interceptProps (spec a) of
        Some f \<Rightarrow>
          (let arr = propsInterceptors (value_objs h2 ! v) in
           if find (\<lambda>i. key (interceptor_adaptation i) = key a) (interceptor_arrays h2 ! arr)
                = None
           then push_interceptor arr \<lparr>propsInterceptor = f, interceptor_adaptation = a\<rparr> h2
           else h2)
      | None \<Rightarrow> h2)"
  note 3 = add_interceptor_step[OF 2(1,2), where a=a, folded h3_def]
  have eq: "append_adaptation m a h = h3"
    unfolding append_adaptation_def h3_def h2_def e Let_def prod.case by (rule refl)
  show "owned h0 (append_adaptation m a h) m" unfolding eq by (rule 3(1))
  show "entry (append_adaptation m a h) m = with_adaptation a (entry h m)"
    unfolding eq 3(3) 2(3) 1(3) l2 l1 with_adaptation_def e0_def[symmetric]
    by (simp add: Let_def)
qed

lemma appendAdaptationMap_owned:
  assumes "owned h0 h m"
  shows "owned h0 (appendAdaptationMap m as h) m"
    and "entry (appendAdaptationMap m as h) m = fold with_adaptation as (entry h m)"
proof -
  have "owned h0 (appendAdaptationMap m as h) m \<and>
      entry (appendAdaptationMap m as h) m = fold with_adaptation as (entry h m)"
    using assms unfolding appendAdaptationMap_def
    by (induction as arbitrary: h) (simp_all add: append_adaptation_owned)
  then show "owned h0 (appendAdaptationMap m as h) m"
    and "entry (appendAdaptationMap m as h) m = fold with_adaptation as (entry h m)"
    by blast+
qed

subsection \<open>AdaptationProvider\<close>

lemma cloneAdaptationMap_owned:
  assumes "wf_heap h" "valid_context h ctx" "cloneAdaptationMap ctx h = (m, h1)"
  shows "owned h h1 m" and "entry h1 m = context_entry h ctx"
proof -
  have "owned h h1 m \<and> entry h1 m = context_entry h ctx"
  proof (cases ctx)
    case None
    then have eq: "m = length (map_objs h)" "h1 = cloned_heap h []"
      using assms(3) by (simp_all add: cloneAdaptationMap_None)
    have "entry h1 m = Map.empty"
      unfolding eq by (rule ext) (simp add: entry_cloned)
    then show ?thesis
      using owned_cloned[OF assms(1), of "[]"] None by (simp add: eq context_entry_def)
  next
    case (Some p)
    then have p: "p < length (map_objs h)" using assms(2) by (simp add: valid_context_def)
    have eq: "m = length (map_objs h)" "h1 = cloned_heap h (map_objs h ! p)"
      using assms(3) Some by (simp_all add: cloneAdaptationMap_Some[OF assms(1) p])
    have d: "distinct (map fst (map_objs h ! p))" using assms(1) p by (rule wf_heap_distinct)
    have "entry h p k = map_option (lists_of h) (map_of (map_objs h ! p) k)" for k
      by (simp add: entry_def Map_get_def)
    then have "entry h1 m = entry h p"
      unfolding eq by (intro ext) (simp add: entry_cloned[OF d])
    then show ?thesis
      using owned_cloned[OF assms(1) d] Some by (simp add: eq context_entry_def)
  qed
  then show "owned h h1 m" and "entry h1 m = context_entry h ctx" by blast+
qed

lemma AdaptationProvider_refines:
  assumes "wf_heap h" "valid_context h ctx" "AdaptationProvider props ctx h = (m, h')"
  shows "owned h h' m" and "entry h' m = provided props (context_entry h ctx)"
proof -
  define r where "r = (case reset props of None \<Rightarrow> False | Some b \<Rightarrow> b)"
  define c where "c = (if r then None else ctx)"
  obtain m1 h1 where cl: "cloneAdaptationMap c h = (m1, h1)" by (cases "cloneAdaptationMap c h")
  have vc: "valid_context h c" using assms(2) by (simp add: c_def valid_context_def)
  note 1 = cloneAdaptationMap_owned[OF assms(1) vc cl]
  define f1 where "f1 = (if r then Map.empty else context_entry h ctx)"
  have e1: "entry h1 m1 = f1" unfolding 1(2) by (simp add: f1_def c_def context_entry_def)
  define h2 where "h2 = (case excludeComponents props of
                  None \<Rightarrow> h1
                | Some ec \<Rightarrow> fold (\<lambda>r. Map_delete m1 (ref_id r)) (as_array ec) h1)"
  define f2 where "f2 = (case excludeComponents props of
                  None \<Rightarrow> f1
                | Some ec \<Rightarrow> (\<lambda>k. if k \<in> ref_id ` set (as_array ec) then None else f1 k))"
  have 2: "owned h h2 m1" "entry h2 m1 = f2"
    unfolding h2_def f2_def e1[symmetric]
    using 1(1) by (auto simp: owned_fold_Map_delete entry_fold_Map_delete
        split: option.splits)
  define h3 where "h3 = (if excludePlugins props \<noteq> None \<or> exclude props \<noteq> None
                then fold (exclude_from_value (excluded_plugins props) (excluded_keys props))
                        (map snd (map_objs h2 ! m1)) h2
                else h2)"
  define f3 where "f3 = (if excludePlugins props \<noteq> None \<or> exclude props \<noteq> None
                then (\<lambda>k. map_option (filtered (excluded_plugins props) (excluded_keys props))
                            (f2 k))
                else f2)"
  have 3: "owned h h3 m1" "entry h3 m1 = f3"
    unfolding h3_def f3_def 2(2)[symmetric]
    using 2(1) exclude_all_values[OF 2(1)] by auto
  define h4 where "h4 = (case adaptations props of
                  None \<Rightarrow> h3
                | Some as \<Rightarrow> appendAdaptationMap m1 (as_array as) h3)"
  have 4: "owned h h4 m1"
    "entry h4 m1 = (case adaptations props of
            None \<Rightarrow> f3
          | Some as \<Rightarrow> fold with_adaptation (as_array as) f3)"
    unfolding h4_def 3(2)[symmetric]
    using 3(1) appendAdaptationMap_owned[OF 3(1)] by (auto split: option.splits)
  have "AdaptationProvider props ctx h = (m1, h4)"
    unfolding AdaptationProvider_def h4_def h3_def h2_def excluded_plugins_def excluded_keys_def
      Let_def
    using cl by (simp add: c_def r_def split: if_splits)
  then have eq: "m = m1" "h' = h4" using assms(3) by simp_all
  show "owned h h' m" unfolding eq by (rule 4(1))
  show "entry h' m = provided props (context_entry h ctx)"
    unfolding eq 4(2) provided_def f3_def f2_def f1_def r_def Let_def by (rule refl)
qed

subsection \<open>Lookups\<close>

lemma lookup_lists:
  assumes "wf_heap h"
  shows "lists_of h (useComponentAdaptations ctx r h) =
     (case context_entry h ctx (ref_id r) of None \<Rightarrow> ([], []) | Some e \<Rightarrow> e)"
proof -
  have "lists_of h noAdaptations = ([], [])"
    using assms by (simp add: lists_of_def wf_heap_def)
  then show ?thesis
    by (simp add: useComponentAdaptations_def context_entry_def entry_def
        split: option.splits)
qed

lemma lookup_components:
  "wf_heap h \<Longrightarrow> components_of h (useComponentAdaptations ctx r h) =
     (case context_entry h ctx (ref_id r) of None \<Rightarrow> [] | Some e \<Rightarrow> snd e)"
  using lookup_lists[of h ctx r] by (auto simp: lists_of_def split: option.splits)

lemma lookup_propsInterceptors:
  "wf_heap h \<Longrightarrow> propsInterceptors_of h (useComponentAdaptations ctx r h) =
     (case context_entry h ctx (ref_id r) of None \<Rightarrow> [] | Some e \<Rightarrow> fst e)"
  using lookup_lists[of h ctx r] by (auto simp: lists_of_def split: option.splits)

lemma lookup_valid:
  assumes "wf_heap h" "valid_context h ctx"
  shows "useComponentAdaptations ctx r h < length (value_objs h)"
proof -
  have "noAdaptations < length (value_objs h)" using assms(1) by (simp add: wf_heap_def)
  then show ?thesis
    using assms wf_heap_map[of h]
    by (auto simp: useComponentAdaptations_def valid_context_def Map_get_def
        split: option.splits)
qed

lemma lookup_extends:
  assumes "wf_heap h" "valid_context h ctx" "heap_extends h h'"
  shows "useComponentAdaptations ctx r h' = useComponentAdaptations ctx r h"
    and "propsInterceptors_of h' (useComponentAdaptations ctx r h') =
         propsInterceptors_of h (useComponentAdaptations ctx r h)"
    and "components_of h' (useComponentAdaptations ctx r h') =
         components_of h (useComponentAdaptations ctx r h)"
proof -
  show 1: "useComponentAdaptations ctx r h' = useComponentAdaptations ctx r h"
  proof (cases ctx)
    case None
    then show ?thesis by (simp add: useComponentAdaptations_def)
  next
    case (Some p)
    then have "map_objs h' ! p = map_objs h ! p"
      using assms(2) heap_extends_nth(4)[OF assms(3)] by (simp add: valid_context_def)
    then show ?thesis using Some by (simp add: useComponentAdaptations_def Map_get_def)
  qed
  show "propsInterceptors_of h' (useComponentAdaptations ctx r h') =
         propsInterceptors_of h (useComponentAdaptations ctx r h)"
    "components_of h' (useComponentAdaptations ctx r h') =
         components_of h (useComponentAdaptations ctx r h)"
    unfolding 1 using heap_extends_lists[OF assms(3,1) lookup_valid[OF assms(1,2)]]
    by simp_all
qed

lemma context_entry_child:
  "context_entry h (Some m) = entry h m"
  by (simp add: context_entry_def)

text \<open>The lists a consumer reads for \<open>r\<close> in the child, from those it reads in the parent.\<close>

lemma child_lists:
  assumes "wf_heap h" "valid_context h parent" "AdaptationProvider props parent h = (child, h')"
  shows "(propsInterceptors_of h' (useComponentAdaptations (Some child) r h'),
          components_of h' (useComponentAdaptations (Some child) r h')) =
     (case provided props (context_entry h parent) (ref_id r) of
        None \<Rightarrow> ([], []) | Some e \<Rightarrow> e)"
  using AdaptationProvider_refines[OF assms]
    lookup_lists[of h' "Some child" r]
  by (simp add: owned_wf context_entry_child lists_of_def)

text \<open>
  Module load gives a well-formed heap and the provider keeps a heap well-formed, so
  every heap that the program reaches is well-formed, with every context it has made.
\<close>

lemma wf_heap_module_heap: "wf_heap module_heap"
  by (simp add: wf_heap_def module_heap_def noAdaptations_def propsInterceptors_of_def
      components_of_def)

lemma wf_heap_AdaptationProvider:
  assumes "wf_heap h" "valid_context h parent" "AdaptationProvider props parent h = (child, h')"
  shows "wf_heap h' \<and> valid_context h' (Some child) \<and> valid_context h' parent"
proof -
  note o = AdaptationProvider_refines(1)[OF assms]
  have "valid_context h' parent"
    using assms(2) heap_extends_length(4)[OF owned_extends[OF o]]
    by (auto simp: valid_context_def split: option.splits)
  then show ?thesis
    using owned_wf[OF o] owned_map[OF o] by (simp add: valid_context_def)
qed

lemma entry_None: "entry h m k = None \<longleftrightarrow> Map_get m k h = None"
  by (simp add: entry_def)

lemma child_miss:
  assumes "wf_heap h" "valid_context h parent" "AdaptationProvider props parent h = (child, h')"
    "provided props (context_entry h parent) (ref_id r) = None"
  shows "useComponentAdaptations (Some child) r h' = noAdaptations"
  using AdaptationProvider_refines(2)[OF assms(1-3)] assms(4) entry_None[of h' child "ref_id r"]
  by (simp add: useComponentAdaptations_def)

lemma child_components:
  assumes "wf_heap h" "valid_context h parent" "AdaptationProvider props parent h = (child, h')"
  shows "components_of h' (useComponentAdaptations (Some child) r h') =
     (case provided props (context_entry h parent) (ref_id r) of
        None \<Rightarrow> [] | Some e \<Rightarrow> snd e)"
  using child_lists[OF assms, of r] by (auto split: option.splits)

lemma child_propsInterceptors:
  assumes "wf_heap h" "valid_context h parent" "AdaptationProvider props parent h = (child, h')"
  shows "propsInterceptors_of h' (useComponentAdaptations (Some child) r h') =
     (case provided props (context_entry h parent) (ref_id r) of
        None \<Rightarrow> [] | Some e \<Rightarrow> fst e)"
  using child_lists[OF assms, of r] by (auto split: option.splits)

subsection \<open>The examples\<close>

lemmas provider_defs =
  AdaptationProvider_def cloneAdaptationMap_def appendAdaptationMap_def append_adaptation_def
  ensureMapValue_def exclude_from_value_def Map_of_entries_def Map_get_def Map_set_def
  Map_delete_def new_map_def new_value_def new_component_array_def new_interceptor_array_def
  push_component_def push_interceptor_def set_components_def no_props_def

lemmas example_defs =
  ref_X_def ref_X2_def ref_Y_def ad_a_def ad_b_def ad_a2_def
  ad_a3_def ad_a4_def ad_b2_def ad_c_def ad_c2_def ad_d_def ad_none_def
  ad_c3_def ad_e_def ad_f_def

text \<open>The two example heaps are the heaps after a first provider at the root.\<close>

lemma heap_a_built:
  "AdaptationProvider (no_props\<lparr>adaptations := Some (Single ad_a)\<rparr>) None module_heap =
     (0, heap_a)"
  by (simp add: provider_defs module_heap_def heap_a_def example_defs)

lemma heap_ab_built:
  "AdaptationProvider (no_props\<lparr>adaptations := Some (Array [ad_a, ad_b])\<rparr>) None module_heap =
     (0, heap_ab)"
  by (simp add: provider_defs module_heap_def heap_ab_def example_defs)

lemma wf_heap_a: "wf_heap heap_a"
  by (simp add: wf_heap_def heap_a_def noAdaptations_def propsInterceptors_of_def
      components_of_def)

lemma wf_heap_ab: "wf_heap heap_ab"
  by (simp add: wf_heap_def heap_ab_def noAdaptations_def propsInterceptors_of_def
      components_of_def)

lemma valid_context_a: "valid_context heap_a (Some 0)"
  by (simp add: valid_context_def heap_a_def)

lemma valid_context_ab: "valid_context heap_ab (Some 0)"
  by (simp add: valid_context_def heap_ab_def)

lemma heap_a_X:
  "useComponentAdaptations (Some 0) ref_X heap_a \<noteq> noAdaptations"
  "components_of heap_a (useComponentAdaptations (Some 0) ref_X heap_a) =
     [\<lparr>component = 10, adaptation = ad_a\<rparr>]"
  "propsInterceptors_of heap_a (useComponentAdaptations (Some 0) ref_X heap_a) = []"
  by (simp_all add: useComponentAdaptations_def Map_get_def heap_a_def ref_X_def
      components_of_def propsInterceptors_of_def noAdaptations_def)

lemma heap_a_Y: "Map_get 0 (ref_id ref_Y) heap_a = None"
  by (simp add: Map_get_def heap_a_def ref_Y_def)

lemma heap_ab_X:
  "components_of heap_ab (useComponentAdaptations (Some 0) ref_X heap_ab) =
     [\<lparr>component = 10, adaptation = ad_a\<rparr>, \<lparr>component = 11, adaptation = ad_b\<rparr>]"
  "propsInterceptors_of heap_ab (useComponentAdaptations (Some 0) ref_X heap_ab) =
     [\<lparr>propsInterceptor = 20, interceptor_adaptation = ad_b\<rparr>]"
  by (simp_all add: useComponentAdaptations_def Map_get_def heap_ab_def ref_X_def
      components_of_def propsInterceptors_of_def)

lemma heap_ab_Y: "Map_get 0 (ref_id ref_Y) heap_ab = None"
  by (simp add: Map_get_def heap_ab_def ref_Y_def)

subsection \<open>The two lists of the child, computed from those of the parent\<close>

lemma kept_nothing_excluded: "kept {} {} cs = cs"
  by (simp add: kept_def split: option.splits)

lemma components_with_adaptation:
  "entry_components (with_adaptation a f) k =
     (if ref_id (ref a) = k then add_component a (entry_components f k)
      else entry_components f k)"
  by (simp add: entry_components_def with_adaptation_def Let_def split: option.splits)

lemma interceptors_with_adaptation:
  "entry_interceptors (with_adaptation a f) k =
     (if ref_id (ref a) = k then add_interceptor a (entry_interceptors f k)
      else entry_interceptors f k)"
  by (simp add: entry_interceptors_def with_adaptation_def Let_def split: option.splits)

lemma components_fold_with_adaptation:
  "entry_components (fold with_adaptation as f) k =
     fold (\<lambda>a cs. if ref_id (ref a) = k then add_component a cs else cs) as
       (entry_components f k)"
  by (induction as arbitrary: f) (simp_all add: components_with_adaptation)

lemma interceptors_fold_with_adaptation:
  "entry_interceptors (fold with_adaptation as f) k =
     fold (\<lambda>a ps. if ref_id (ref a) = k then add_interceptor a ps else ps) as
       (entry_interceptors f k)"
  by (induction as arbitrary: f) (simp_all add: interceptors_with_adaptation)

lemma kept_Nil: "kept S T [] = []"
  by (simp add: kept_def)

lemma provided_before_adaptations:
  "(let f1 = (if (case reset props of None \<Rightarrow> False | Some b \<Rightarrow> b) then Map.empty else f);
        f2 = (case excludeComponents props of
                None \<Rightarrow> f1
              | Some ec \<Rightarrow> (\<lambda>k. if k \<in> ref_id ` set (as_array ec) then None else f1 k))
    in (if excludePlugins props \<noteq> None \<or> exclude props \<noteq> None
        then (\<lambda>k. map_option (filtered (excluded_plugins props) (excluded_keys props)) (f2 k))
        else f2)) =
   (\<lambda>k. if reset_on props \<or> k \<in> excluded_ids props then None
        else map_option (filtered (excluded_plugins props) (excluded_keys props)) (f k))"
proof -
  have id: "map_option (filtered {} {}) x = x" for x
    by (cases x) (simp_all add: filtered_def kept_nothing_excluded)
  have none: "excluded_plugins props = {} \<and> excluded_keys props = {}"
    if "excludePlugins props = None" "exclude props = None"
    using that by (simp add: excluded_plugins_def excluded_keys_def)
  show ?thesis
  proof (cases "excludePlugins props \<noteq> None \<or> exclude props \<noteq> None")
    case True
    then show ?thesis
      by (auto simp: Let_def reset_on_def excluded_ids_def fun_eq_iff split: option.splits)
  next
    case False
    then have "excluded_plugins props = {}" "excluded_keys props = {}"
      using none by simp_all
    then show ?thesis
      using False
      by (auto simp: Let_def reset_on_def excluded_ids_def fun_eq_iff id split: option.splits)
  qed
qed

lemma provided_fold:
  "provided props f =
     fold with_adaptation (new_adaptations props)
       (\<lambda>k. if reset_on props \<or> k \<in> excluded_ids props then None
            else map_option (filtered (excluded_plugins props) (excluded_keys props)) (f k))"
proof -
  have "provided props f =
     fold with_adaptation (new_adaptations props)
       (let f1 = (if (case reset props of None \<Rightarrow> False | Some b \<Rightarrow> b) then Map.empty else f);
            f2 = (case excludeComponents props of
                None \<Rightarrow> f1
              | Some ec \<Rightarrow> (\<lambda>k. if k \<in> ref_id ` set (as_array ec) then None else f1 k))
        in (if excludePlugins props \<noteq> None \<or> exclude props \<noteq> None
            then (\<lambda>k. map_option (filtered (excluded_plugins props) (excluded_keys props)) (f2 k))
            else f2))"
    unfolding provided_def new_adaptations_def Let_def
    by (cases "adaptations props") simp_all
  then show ?thesis unfolding provided_before_adaptations .
qed

lemma components_provided:
  "entry_components (provided props f) k =
     fold (\<lambda>a cs. if ref_id (ref a) = k then add_component a cs else cs)
       (new_adaptations props)
       (if reset_on props \<or> k \<in> excluded_ids props then []
        else kept (excluded_plugins props) (excluded_keys props) (entry_components f k))"
  unfolding provided_fold components_fold_with_adaptation
  by (simp add: entry_components_def filtered_def kept_Nil split: option.splits)

lemma interceptors_provided:
  "entry_interceptors (provided props f) k =
     fold (\<lambda>a ps. if ref_id (ref a) = k then add_interceptor a ps else ps)
       (new_adaptations props)
       (if reset_on props \<or> k \<in> excluded_ids props then [] else entry_interceptors f k)"
  unfolding provided_fold interceptors_fold_with_adaptation
  by (simp add: entry_interceptors_def filtered_def split: option.splits)

text \<open>What a consumer reads in the child, from what it reads in the parent.\<close>

lemma child_components_fold:
  assumes "wf_heap h" "valid_context h parent" "AdaptationProvider props parent h = (child, h')"
  shows "components_of h' (useComponentAdaptations (Some child) r h') =
     fold (\<lambda>a cs. if ref_id (ref a) = ref_id r then add_component a cs else cs)
       (new_adaptations props)
       (if reset_on props \<or> ref_id r \<in> excluded_ids props then []
        else kept (excluded_plugins props) (excluded_keys props)
               (components_of h (useComponentAdaptations parent r h)))"
  using child_components[OF assms, of r] lookup_components[OF assms(1), of parent r]
    components_provided[of props "context_entry h parent" "ref_id r"]
  by (simp add: entry_components_def)

lemma child_propsInterceptors_fold:
  assumes "wf_heap h" "valid_context h parent" "AdaptationProvider props parent h = (child, h')"
  shows "propsInterceptors_of h' (useComponentAdaptations (Some child) r h') =
     fold (\<lambda>a ps. if ref_id (ref a) = ref_id r then add_interceptor a ps else ps)
       (new_adaptations props)
       (if reset_on props \<or> ref_id r \<in> excluded_ids props then []
        else propsInterceptors_of h (useComponentAdaptations parent r h))"
  using child_propsInterceptors[OF assms, of r] lookup_propsInterceptors[OF assms(1), of parent r]
    interceptors_provided[of props "context_entry h parent" "ref_id r"]
  by (simp add: entry_interceptors_def)

lemma add_component_eq:
  "Adaptation (spec a) = Some f \<Longrightarrow>
     add_component a cs =
       (if \<exists>e \<in> set cs. key (adaptation e) = key a then cs
        else cs @ [\<lparr>component = f, adaptation = a\<rparr>])"
  by (auto simp: add_component_def find_None_iff)

lemma add_component_same_key:
  "e \<in> set cs \<Longrightarrow> key (adaptation e) = key a \<Longrightarrow> add_component a cs = cs"
  by (auto simp: add_component_def find_None_iff split: option.splits)


lemma fold_add_component_appends:
  "\<exists>ys. fold (\<lambda>a cs. if ref_id (ref a) = k then add_component a cs else cs) as cs = cs @ ys \<and>
        subseq (map adaptation ys) as"
proof (induction as arbitrary: cs)
  case Nil
  then show ?case by simp
next
  case (Cons a as)
  let ?step = "\<lambda>a cs. if ref_id (ref a) = k then add_component a cs else cs"
  have "?step a cs = cs \<or> (\<exists>f. ?step a cs = cs @ [\<lparr>component = f, adaptation = a\<rparr>])"
    by (auto simp: add_component_def split: option.splits)
  then show ?case
  proof
    assume same: "?step a cs = cs"
    from Cons.IH[of cs] obtain ys where "fold ?step as cs = cs @ ys"
      "subseq (map adaptation ys) as" by blast
    then show ?thesis using same by (auto intro: subseq_Cons')
  next
    assume "\<exists>f. ?step a cs = cs @ [\<lparr>component = f, adaptation = a\<rparr>]"
    then obtain f where app: "?step a cs = cs @ [\<lparr>component = f, adaptation = a\<rparr>]" by blast
    from Cons.IH[of "cs @ [\<lparr>component = f, adaptation = a\<rparr>]"] obtain ys where
      ys: "fold ?step as (cs @ [\<lparr>component = f, adaptation = a\<rparr>]) =
          (cs @ [\<lparr>component = f, adaptation = a\<rparr>]) @ ys"
      "subseq (map adaptation ys) as" by blast
    have "fold ?step (a # as) cs = cs @ (\<lparr>component = f, adaptation = a\<rparr> # ys)"
      using app ys(1) by simp
    moreover have "subseq (map adaptation (\<lparr>component = f, adaptation = a\<rparr> # ys)) (a # as)"
      using ys(2) by simp
    ultimately show ?thesis by blast
  qed
qed

lemma props_parts:
  "reset_on (no_props\<lparr>adaptations := as\<rparr>) = False"
  "excluded_ids (no_props\<lparr>adaptations := as\<rparr>) = {}"
  "excluded_plugins (no_props\<lparr>adaptations := as\<rparr>) = {}"
  "excluded_keys (no_props\<lparr>adaptations := as\<rparr>) = {}"
  "new_adaptations (no_props\<lparr>adaptations := Some as'\<rparr>) = as_array as'"
  "reset_on (no_props\<lparr>reset := r\<rparr>) = (case r of None \<Rightarrow> False | Some b \<Rightarrow> b)"
  "excluded_ids (no_props\<lparr>reset := r\<rparr>) = {}"
  "excluded_plugins (no_props\<lparr>reset := r\<rparr>) = {}"
  "excluded_keys (no_props\<lparr>reset := r\<rparr>) = {}"
  "new_adaptations (no_props\<lparr>reset := r\<rparr>) = []"
  "reset_on (no_props\<lparr>excludeComponents := ec\<rparr>) = False"
  "excluded_plugins (no_props\<lparr>excludeComponents := ec\<rparr>) = {}"
  "excluded_keys (no_props\<lparr>excludeComponents := ec\<rparr>) = {}"
  "new_adaptations (no_props\<lparr>excludeComponents := ec\<rparr>) = []"
  "reset_on (no_props\<lparr>excludePlugins := ps, exclude := es\<rparr>) = False"
  "excluded_ids (no_props\<lparr>excludePlugins := ps, exclude := es\<rparr>) = {}"
  "new_adaptations (no_props\<lparr>excludePlugins := ps, exclude := es\<rparr>) = []"
  by (simp_all add: reset_on_def excluded_ids_def excluded_plugins_def excluded_keys_def
      new_adaptations_def no_props_def)

lemma props_parts_same:
  "excluded_ids (no_props\<lparr>excludeComponents := excludeComponents props\<rparr>) = excluded_ids props"
  "excluded_plugins (no_props\<lparr>excludePlugins := excludePlugins props, exclude := exclude props\<rparr>)
     = excluded_plugins props"
  "excluded_keys (no_props\<lparr>excludePlugins := excludePlugins props, exclude := exclude props\<rparr>)
     = excluded_keys props"
  "new_adaptations (no_props\<lparr>adaptations := adaptations props\<rparr>) = new_adaptations props"
  "reset_on (no_props\<lparr>reset := reset props\<rparr>) = reset_on props"
  by (simp_all add: reset_on_def excluded_ids_def excluded_plugins_def excluded_keys_def
      new_adaptations_def no_props_def)

lemma add_interceptor_eq:
  "interceptProps (spec a) = Some f \<Longrightarrow>
     add_interceptor a ps =
       (if \<exists>i \<in> set ps. key (interceptor_adaptation i) = key a then ps
        else ps @ [\<lparr>propsInterceptor = f, interceptor_adaptation = a\<rparr>])"
  by (auto simp: add_interceptor_def find_None_iff)

lemma filter_filter_if_Nil:
  "filter P (filter Q (if a then [] else if b then [] else cs)) =
     (if b \<or> a then [] else filter P (filter Q cs))"
  by simp

lemma inherited_components_eq:
  "inherited_components props k cs =
     (if reset_on props \<or> k \<in> excluded_ids props then []
      else kept (excluded_plugins props) (excluded_keys props) cs)"
  unfolding inherited_components_def reset_on_def excluded_ids_def kept_def
    excluded_plugins_def excluded_keys_def filter_filter_if_Nil
  by (rule refl)

lemma inherited_interceptors_eq:
  "inherited_interceptors props k ps =
     (if reset_on props \<or> k \<in> excluded_ids props then [] else ps)"
  by (simp add: inherited_interceptors_def reset_on_def excluded_ids_def)

lemma inherited_only_adaptations:
  "inherited_components (no_props\<lparr>adaptations := as\<rparr>) k cs = cs"
  "inherited_interceptors (no_props\<lparr>adaptations := as\<rparr>) k ps = ps"
  by (simp_all add: inherited_components_def inherited_interceptors_def no_props_def
      split: option.splits)

text \<open>The lists of the child, with the steps of the provider in their order.\<close>

lemma child_components_steps:
  assumes "wf_heap h" "valid_context h parent" "AdaptationProvider props parent h = (child, h')"
  shows "components_of h' (useComponentAdaptations (Some child) r h') =
     fold (\<lambda>a cs. if ref_id (ref a) = ref_id r then add_component a cs else cs)
       (new_adaptations props)
       (inherited_components props (ref_id r)
          (components_of h (useComponentAdaptations parent r h)))"
  unfolding child_components_fold[OF assms] inherited_components_eq by (rule refl)

lemma child_propsInterceptors_steps:
  assumes "wf_heap h" "valid_context h parent" "AdaptationProvider props parent h = (child, h')"
  shows "propsInterceptors_of h' (useComponentAdaptations (Some child) r h') =
     fold (\<lambda>a ps. if ref_id (ref a) = ref_id r then add_interceptor a ps else ps)
       (new_adaptations props)
       (inherited_interceptors props (ref_id r)
          (propsInterceptors_of h (useComponentAdaptations parent r h)))"
  unfolding child_propsInterceptors_fold[OF assms] inherited_interceptors_eq by (rule refl)

lemma fold_add_component_elements:
  "\<exists>ys. fold (\<lambda>a cs. if ref_id (ref a) = k then add_component a cs else cs) as cs = cs @ ys \<and>
        subseq (map adaptation ys) as \<and>
        (\<forall>e \<in> set ys. ref_id (ref (adaptation e)) = k \<and>
           Adaptation (spec (adaptation e)) = Some (component e))"
proof (induction as arbitrary: cs)
  case Nil
  then show ?case by simp
next
  case (Cons a as)
  let ?step = "\<lambda>a cs. if ref_id (ref a) = k then add_component a cs else cs"
  have "?step a cs = cs \<or>
      (\<exists>f. ?step a cs = cs @ [\<lparr>component = f, adaptation = a\<rparr>] \<and> ref_id (ref a) = k \<and>
           Adaptation (spec a) = Some f)"
    by (auto simp: add_component_def split: option.splits)
  then show ?case
  proof
    assume same: "?step a cs = cs"
    from Cons.IH[of cs] obtain ys where "fold ?step as cs = cs @ ys"
      "subseq (map adaptation ys) as"
      "\<forall>e \<in> set ys. ref_id (ref (adaptation e)) = k \<and>
           Adaptation (spec (adaptation e)) = Some (component e)" by blast
    then show ?thesis using same by (auto intro: subseq_Cons')
  next
    assume "\<exists>f. ?step a cs = cs @ [\<lparr>component = f, adaptation = a\<rparr>] \<and> ref_id (ref a) = k \<and>
           Adaptation (spec a) = Some f"
    then obtain f where app: "?step a cs = cs @ [\<lparr>component = f, adaptation = a\<rparr>]"
      and a: "ref_id (ref a) = k" "Adaptation (spec a) = Some f" by blast
    from Cons.IH[of "cs @ [\<lparr>component = f, adaptation = a\<rparr>]"] obtain ys where
      ys: "fold ?step as (cs @ [\<lparr>component = f, adaptation = a\<rparr>]) =
          (cs @ [\<lparr>component = f, adaptation = a\<rparr>]) @ ys"
      "subseq (map adaptation ys) as"
      "\<forall>e \<in> set ys. ref_id (ref (adaptation e)) = k \<and>
           Adaptation (spec (adaptation e)) = Some (component e)" by blast
    have "fold ?step (a # as) cs = cs @ (\<lparr>component = f, adaptation = a\<rparr> # ys)"
      using app ys(1) by simp
    moreover have "subseq (map adaptation (\<lparr>component = f, adaptation = a\<rparr> # ys)) (a # as)"
      using ys(2) by simp
    moreover have "\<forall>e \<in> set (\<lparr>component = f, adaptation = a\<rparr> # ys).
        ref_id (ref (adaptation e)) = k \<and> Adaptation (spec (adaptation e)) = Some (component e)"
      using ys(3) a by simp
    ultimately show ?thesis by blast
  qed
qed

lemma fold_add_interceptor_elements:
  "\<exists>zs. fold (\<lambda>a ps. if ref_id (ref a) = k then add_interceptor a ps else ps) as ps = ps @ zs \<and>
        subseq (map interceptor_adaptation zs) as \<and>
        (\<forall>i \<in> set zs. ref_id (ref (interceptor_adaptation i)) = k \<and>
           interceptProps (spec (interceptor_adaptation i)) = Some (propsInterceptor i))"
proof (induction as arbitrary: ps)
  case Nil
  then show ?case by simp
next
  case (Cons a as)
  let ?step = "\<lambda>a ps. if ref_id (ref a) = k then add_interceptor a ps else ps"
  have "?step a ps = ps \<or>
      (\<exists>f. ?step a ps = ps @ [\<lparr>propsInterceptor = f, interceptor_adaptation = a\<rparr>] \<and>
           ref_id (ref a) = k \<and> interceptProps (spec a) = Some f)"
    by (auto simp: add_interceptor_def split: option.splits)
  then show ?case
  proof
    assume same: "?step a ps = ps"
    from Cons.IH[of ps] obtain zs where "fold ?step as ps = ps @ zs"
      "subseq (map interceptor_adaptation zs) as"
      "\<forall>i \<in> set zs. ref_id (ref (interceptor_adaptation i)) = k \<and>
           interceptProps (spec (interceptor_adaptation i)) = Some (propsInterceptor i)" by blast
    then show ?thesis using same by (auto intro: subseq_Cons')
  next
    assume "\<exists>f. ?step a ps = ps @ [\<lparr>propsInterceptor = f, interceptor_adaptation = a\<rparr>] \<and>
           ref_id (ref a) = k \<and> interceptProps (spec a) = Some f"
    then obtain f where
      app: "?step a ps = ps @ [\<lparr>propsInterceptor = f, interceptor_adaptation = a\<rparr>]"
      and a: "ref_id (ref a) = k" "interceptProps (spec a) = Some f" by blast
    from Cons.IH[of "ps @ [\<lparr>propsInterceptor = f, interceptor_adaptation = a\<rparr>]"] obtain zs where
      zs: "fold ?step as (ps @ [\<lparr>propsInterceptor = f, interceptor_adaptation = a\<rparr>]) =
          (ps @ [\<lparr>propsInterceptor = f, interceptor_adaptation = a\<rparr>]) @ zs"
      "subseq (map interceptor_adaptation zs) as"
      "\<forall>i \<in> set zs. ref_id (ref (interceptor_adaptation i)) = k \<and>
           interceptProps (spec (interceptor_adaptation i)) = Some (propsInterceptor i)" by blast
    have "fold ?step (a # as) ps =
        ps @ (\<lparr>propsInterceptor = f, interceptor_adaptation = a\<rparr> # zs)"
      using app zs(1) by simp
    moreover have "subseq (map interceptor_adaptation
        (\<lparr>propsInterceptor = f, interceptor_adaptation = a\<rparr> # zs)) (a # as)"
      using zs(2) by simp
    moreover have "\<forall>i \<in> set (\<lparr>propsInterceptor = f, interceptor_adaptation = a\<rparr> # zs).
        ref_id (ref (interceptor_adaptation i)) = k \<and>
        interceptProps (spec (interceptor_adaptation i)) = Some (propsInterceptor i)"
      using zs(3) a by simp
    ultimately show ?thesis by blast
  qed
qed

section \<open>The properties of the registry\<close>

text \<open>
  Claim C1, as amended. \<^verbatim>\<open>AdaptationProvider\<close> changes no object that existed before
  the call: the heap after it extends the heap before it. Hence a lookup in the parent
  registry returns the same value object, with the same two lists in the same order, as
  before the call, whatever the options are. When the parent holds one component for a
  reference and the provider is given one adaptation for that reference, the parent still
  reads that one component; the child reads two when the adaptation has a replacement and
  another key than that component, and reads that one component alone when the adaptation
  has the key of that component or has no replacement.
\<close>

theorem extend_keeps_parent:
  assumes "wf_heap h" "valid_context h parent"
    "AdaptationProvider props parent h = (child, h')"
  shows "heap_extends h h' \<and>
     useComponentAdaptations parent r h' = useComponentAdaptations parent r h \<and>
     propsInterceptors_of h' (useComponentAdaptations parent r h') =
       propsInterceptors_of h (useComponentAdaptations parent r h) \<and>
     components_of h' (useComponentAdaptations parent r h') =
       components_of h (useComponentAdaptations parent r h) \<and>
     (props = no_props\<lparr>adaptations := Some (Single a)\<rparr> \<and>
      ref_id (ref a) = ref_id x \<and> Adaptation (spec a) = Some f \<and>
      components_of h (useComponentAdaptations parent x h) = [e] \<and>
      key (adaptation e) \<noteq> key a \<longrightarrow>
        components_of h' (useComponentAdaptations parent x h') = [e] \<and>
        components_of h' (useComponentAdaptations (Some child) x h') =
          [e, \<lparr>component = f, adaptation = a\<rparr>]) \<and>
     (props = no_props\<lparr>adaptations := Some (Single a)\<rparr> \<and>
      ref_id (ref a) = ref_id x \<and>
      components_of h (useComponentAdaptations parent x h) = [e] \<and>
      (key (adaptation e) = key a \<or> Adaptation (spec a) = None) \<longrightarrow>
        components_of h' (useComponentAdaptations parent x h') = [e] \<and>
        components_of h' (useComponentAdaptations (Some child) x h') = [e])"
proof -
  note o = AdaptationProvider_refines(1)[OF assms]
  note ext = owned_extends[OF o]
  note keep = lookup_extends[OF assms(1,2) ext]
  have "components_of h' (useComponentAdaptations (Some child) x h') =
          [e, \<lparr>component = f, adaptation = a\<rparr>]"
    if p: "props = no_props\<lparr>adaptations := Some (Single a)\<rparr>"
      and a: "ref_id (ref a) = ref_id x" "Adaptation (spec a) = Some f"
      and e: "components_of h (useComponentAdaptations parent x h) = [e]"
        "key (adaptation e) \<noteq> key a"
  proof -
    have "(case context_entry h parent (ref_id x) of None \<Rightarrow> [] | Some e \<Rightarrow> snd e) = [e]"
      using lookup_components[OF assms(1), of parent x] e(1) by simp
    then obtain ps where "context_entry h parent (ref_id x) = Some (ps, [e])"
      by (cases "context_entry h parent (ref_id x)") auto
    then have "provided props (context_entry h parent) (ref_id x) =
        Some (add_interceptor a ps, [e, \<lparr>component = f, adaptation = a\<rparr>])"
      using a e(2)
      by (simp add: provided_def p no_props_def with_adaptation_def add_component_def)
    then show ?thesis using child_lists[OF assms, of x] by simp
  qed
  note two = this
  have one: "components_of h' (useComponentAdaptations (Some child) x h') = [e]"
    if p: "props = no_props\<lparr>adaptations := Some (Single a)\<rparr>"
      and a: "ref_id (ref a) = ref_id x"
      and e: "components_of h (useComponentAdaptations parent x h) = [e]"
        "key (adaptation e) = key a \<or> Adaptation (spec a) = None"
  proof -
    have "(case context_entry h parent (ref_id x) of None \<Rightarrow> [] | Some e \<Rightarrow> snd e) = [e]"
      using lookup_components[OF assms(1), of parent x] e(1) by simp
    then obtain ps where "context_entry h parent (ref_id x) = Some (ps, [e])"
      by (cases "context_entry h parent (ref_id x)") auto
    then have "provided props (context_entry h parent) (ref_id x) =
        Some (add_interceptor a ps, [e])"
      using a e(2)
      by (auto simp: provided_def p no_props_def with_adaptation_def add_component_def
          Let_def split: option.splits)
    then show ?thesis using child_lists[OF assms, of x] by simp
  qed
  have k: "components_of h' (useComponentAdaptations parent x h') =
      components_of h (useComponentAdaptations parent x h)" for x
    using keep by simp
  show ?thesis using ext keep two one by (simp add: k)
qed

text \<open>
  In \<open>heap_a\<close> the registry at address 0 holds, for \<open>X\<close>, one component with key
  \<^verbatim>\<open>a\<close>. A provider is given one new adaptation for \<open>X\<close>, with a replacement and with
  the key \<^verbatim>\<open>a\<close>: the child reads one component for \<open>X\<close>, not two.
\<close>

theorem new_adaptation_same_key_counterexample:
  "components_of heap_a (useComponentAdaptations (Some 0) ref_X heap_a) =
     [\<lparr>component = 10, adaptation = ad_a\<rparr>] \<and>
   ref_id (ref ad_a3) = ref_id ref_X \<and>
   components_of
     (snd (AdaptationProvider (no_props\<lparr>adaptations := Some (Array [ad_a3])\<rparr>)
        (Some 0) heap_a))
     (useComponentAdaptations
        (Some (fst (AdaptationProvider (no_props\<lparr>adaptations := Some (Array [ad_a3])\<rparr>)
           (Some 0) heap_a)))
        ref_X
        (snd (AdaptationProvider (no_props\<lparr>adaptations := Some (Array [ad_a3])\<rparr>)
           (Some 0) heap_a)))
     = [\<lparr>component = 10, adaptation = ad_a\<rparr>] \<and>
   length [\<lparr>component = 10, adaptation = ad_a\<rparr>] \<noteq> 2"
  by (simp add: provider_defs heap_a_def example_defs
      useComponentAdaptations_def components_of_def)

theorem extend_keeps_parent_witness:
  "wf_heap heap_a \<and> valid_context heap_a (Some 0) \<and>
   components_of heap_a (useComponentAdaptations (Some 0) ref_X heap_a) =
     [\<lparr>component = 10, adaptation = ad_a\<rparr>] \<and>
   components_of
     (snd (AdaptationProvider (no_props\<lparr>adaptations := Some (Single ad_b)\<rparr>) (Some 0) heap_a))
     (useComponentAdaptations (Some 0) ref_X
        (snd (AdaptationProvider (no_props\<lparr>adaptations := Some (Single ad_b)\<rparr>) (Some 0) heap_a)))
     = [\<lparr>component = 10, adaptation = ad_a\<rparr>] \<and>
   components_of
     (snd (AdaptationProvider (no_props\<lparr>adaptations := Some (Single ad_b)\<rparr>) (Some 0) heap_a))
     (useComponentAdaptations
        (Some (fst (AdaptationProvider (no_props\<lparr>adaptations := Some (Single ad_b)\<rparr>)
           (Some 0) heap_a)))
        ref_X
        (snd (AdaptationProvider (no_props\<lparr>adaptations := Some (Single ad_b)\<rparr>) (Some 0) heap_a)))
     = [\<lparr>component = 10, adaptation = ad_a\<rparr>, \<lparr>component = 11, adaptation = ad_b\<rparr>]"
proof -
  have a: "ref_id (ref ad_b) = ref_id ref_X" "Adaptation (spec ad_b) = Some 11"
    "key (adaptation \<lparr>component = 10, adaptation = ad_a\<rparr>) \<noteq> key ad_b"
    by (simp_all add: example_defs)
  note t = extend_keeps_parent[OF wf_heap_a valid_context_a surjective_pairing,
        where props = "no_props\<lparr>adaptations := Some (Single ad_b)\<rparr>" and a = ad_b
          and x = ref_X and r = ref_X and f = 11
          and e = "\<lparr>component = 10, adaptation = ad_a\<rparr>"]
  show ?thesis using t a heap_a_X(2) wf_heap_a valid_context_a by blast
qed

text \<open>
  Claim C2. A lookup of a reference that has no entry in the registry returns
  \<^verbatim>\<open>noAdaptations\<close>, the one object made when the module is loaded, whatever the
  registry and the heap are: two misses return the identical object, and so does a lookup
  with no provider above. It is an object of the heap at module load, not one made by the
  lookup, and in a well-formed heap its two lists are empty.
\<close>

theorem lookup_miss_is_noAdaptations:
  assumes "wf_heap h" "Map_get m (ref_id r) h = None" "Map_get m' (ref_id r') h' = None"
  shows "useComponentAdaptations (Some m) r h = noAdaptations \<and>
     useComponentAdaptations (Some m') r' h' = useComponentAdaptations (Some m) r h \<and>
     useComponentAdaptations None r h = noAdaptations \<and>
     noAdaptations < length (value_objs module_heap) \<and>
     propsInterceptors_of h (useComponentAdaptations (Some m) r h) = [] \<and>
     components_of h (useComponentAdaptations (Some m) r h) = []"
  using assms
  by (simp add: useComponentAdaptations_def wf_heap_def module_heap_def noAdaptations_def)

theorem lookup_miss_is_noAdaptations_witness:
  "wf_heap heap_a \<and> Map_get 0 (ref_id ref_Y) heap_a = None \<and>
   Map_get 0 (ref_id ref_Y) heap_ab = None \<and>
   useComponentAdaptations (Some 0) ref_Y heap_a = noAdaptations \<and>
   useComponentAdaptations (Some 0) ref_Y heap_ab = useComponentAdaptations (Some 0) ref_Y heap_a \<and>
   components_of heap_a (useComponentAdaptations (Some 0) ref_Y heap_a) = []"
  using lookup_miss_is_noAdaptations[OF wf_heap_a heap_a_Y heap_ab_Y]
    wf_heap_a heap_a_Y heap_ab_Y
  by blast

text \<open>
  Claim C3, as amended. Two adaptations \<^verbatim>\<open>A\<close> and \<^verbatim>\<open>B\<close> with one key, both with a
  replacement and both for the reference \<open>x\<close>, are given in one list, or in two
  successive providers. Each of the two lists is deduplicated by itself, on the key, the
  inherited elements counting first. If the components inherited for \<open>x\<close> hold no
  element of that key, the child reads them followed by the element of \<^verbatim>\<open>A\<close> alone; if
  they hold one, the child reads them and nothing else. If the props interceptors inherited
  for \<open>x\<close> hold an element of that key, the child reads them and nothing else; if not, it
  reads them followed by the interceptor of \<^verbatim>\<open>A\<close>, or, when \<^verbatim>\<open>A\<close> has none, by that of
  \<^verbatim>\<open>B\<close>, although the replacement of \<^verbatim>\<open>B\<close> is ignored. The lists of a reference with
  another id are those of the parent.
\<close>

theorem same_key_first_wins:
  assumes "wf_heap h" "valid_context h parent"
    "AdaptationProvider (no_props\<lparr>adaptations := Some (Array [A, B])\<rparr>) parent h = (child, h')"
    "AdaptationProvider (no_props\<lparr>adaptations := Some (Single A)\<rparr>) parent h = (c1, h1)"
    "AdaptationProvider (no_props\<lparr>adaptations := Some (Single B)\<rparr>) (Some c1) h1 = (c2, h2)"
    "ref_id (ref A) = ref_id x" "ref_id (ref B) = ref_id x" "key B = key A"
    "Adaptation (spec A) = Some R1" "Adaptation (spec B) = Some R2"
  shows "components_of h' (useComponentAdaptations (Some child) x h') =
       (if \<exists>e \<in> set (components_of h (useComponentAdaptations parent x h)).
             key (adaptation e) = key A
        then components_of h (useComponentAdaptations parent x h)
        else components_of h (useComponentAdaptations parent x h) @
             [\<lparr>component = R1, adaptation = A\<rparr>]) \<and>
     propsInterceptors_of h' (useComponentAdaptations (Some child) x h') =
       (if \<exists>i \<in> set (propsInterceptors_of h (useComponentAdaptations parent x h)).
             key (interceptor_adaptation i) = key A
        then propsInterceptors_of h (useComponentAdaptations parent x h)
        else case interceptProps (spec A) of
               Some I1 \<Rightarrow>
                 propsInterceptors_of h (useComponentAdaptations parent x h) @
                 [\<lparr>propsInterceptor = I1, interceptor_adaptation = A\<rparr>]
             | None \<Rightarrow>
                 (case interceptProps (spec B) of
                    Some I2 \<Rightarrow>
                      propsInterceptors_of h (useComponentAdaptations parent x h) @
                      [\<lparr>propsInterceptor = I2, interceptor_adaptation = B\<rparr>]
                  | None \<Rightarrow> propsInterceptors_of h (useComponentAdaptations parent x h))) \<and>
     components_of h2 (useComponentAdaptations (Some c2) x h2) =
       components_of h' (useComponentAdaptations (Some child) x h') \<and>
     propsInterceptors_of h2 (useComponentAdaptations (Some c2) x h2) =
       propsInterceptors_of h' (useComponentAdaptations (Some child) x h') \<and>
     (ref_id r \<noteq> ref_id x \<longrightarrow>
        components_of h' (useComponentAdaptations (Some child) r h') =
          components_of h (useComponentAdaptations parent r h) \<and>
        propsInterceptors_of h' (useComponentAdaptations (Some child) r h') =
          propsInterceptors_of h (useComponentAdaptations parent r h))"
proof -
  define cbase where "cbase = components_of h (useComponentAdaptations parent x h)"
  define ibase where "ibase = propsInterceptors_of h (useComponentAdaptations parent x h)"
  have c: "components_of h' (useComponentAdaptations (Some child) x h') =
      add_component B (add_component A cbase)"
    using child_components_steps[OF assms(1,2,3), of x] assms(6,7)
    by (simp add: props_parts inherited_only_adaptations cbase_def)
  have i: "propsInterceptors_of h' (useComponentAdaptations (Some child) x h') =
      add_interceptor B (add_interceptor A ibase)"
    using child_propsInterceptors_steps[OF assms(1,2,3), of x] assms(6,7)
    by (simp add: props_parts inherited_only_adaptations ibase_def)
  have w1: "wf_heap h1" "valid_context h1 (Some c1)"
    using wf_heap_AdaptationProvider[OF assms(1,2,4)] by simp_all
  have c1: "components_of h1 (useComponentAdaptations (Some c1) x h1) = add_component A cbase"
    using child_components_steps[OF assms(1,2,4), of x] assms(6)
    by (simp add: props_parts inherited_only_adaptations cbase_def)
  have i1: "propsInterceptors_of h1 (useComponentAdaptations (Some c1) x h1) =
      add_interceptor A ibase"
    using child_propsInterceptors_steps[OF assms(1,2,4), of x] assms(6)
    by (simp add: props_parts inherited_only_adaptations ibase_def)
  have c2: "components_of h2 (useComponentAdaptations (Some c2) x h2) =
      add_component B (add_component A cbase)"
    using child_components_steps[OF w1 assms(5), of x] assms(7)
    by (simp add: props_parts inherited_only_adaptations c1)
  have i2: "propsInterceptors_of h2 (useComponentAdaptations (Some c2) x h2) =
      add_interceptor B (add_interceptor A ibase)"
    using child_propsInterceptors_steps[OF w1 assms(5), of x] assms(7)
    by (simp add: props_parts inherited_only_adaptations i1)
  have cs: "add_component B (add_component A cbase) =
      (if \<exists>e \<in> set cbase. key (adaptation e) = key A then cbase
       else cbase @ [\<lparr>component = R1, adaptation = A\<rparr>])"
    using assms(8) by (simp add: add_component_eq[OF assms(9)] add_component_eq[OF assms(10)])
  have "add_interceptor B (add_interceptor A ibase) =
      (if \<exists>i \<in> set ibase. key (interceptor_adaptation i) = key A then ibase
       else case interceptProps (spec A) of
              Some I1 \<Rightarrow> ibase @ [\<lparr>propsInterceptor = I1, interceptor_adaptation = A\<rparr>]
            | None \<Rightarrow>
                (case interceptProps (spec B) of
                   Some I2 \<Rightarrow> ibase @ [\<lparr>propsInterceptor = I2, interceptor_adaptation = B\<rparr>]
                 | None \<Rightarrow> ibase))"
    using assms(8) by (auto simp: add_interceptor_def find_None_iff split: option.splits)
  note ints = this
  have other: "components_of h' (useComponentAdaptations (Some child) r h') =
          components_of h (useComponentAdaptations parent r h) \<and>
        propsInterceptors_of h' (useComponentAdaptations (Some child) r h') =
          propsInterceptors_of h (useComponentAdaptations parent r h)"
    if "ref_id r \<noteq> ref_id x"
    using child_components_steps[OF assms(1,2,3), of r]
      child_propsInterceptors_steps[OF assms(1,2,3), of r] that assms(6,7)
    by (simp add: props_parts inherited_only_adaptations)
  show ?thesis
    unfolding c i c2 i2 cs ints cbase_def[symmetric] ibase_def[symmetric]
    using other by simp
qed

text \<open>
  In \<open>heap_a\<close> the registry at address 0 holds, for \<open>X\<close>, one component with key
  \<^verbatim>\<open>a\<close>. Two adaptations with key \<^verbatim>\<open>a\<close> are given for \<open>X\<close>: the list of the child
  is the inherited one, without the element of the first of the two.
\<close>

theorem same_key_later_registry_counterexample:
  "components_of
     (snd (AdaptationProvider (no_props\<lparr>adaptations := Some (Array [ad_a3, ad_a4])\<rparr>)
        (Some 0) heap_a))
     (useComponentAdaptations
        (Some (fst (AdaptationProvider (no_props\<lparr>adaptations := Some (Array [ad_a3, ad_a4])\<rparr>)
           (Some 0) heap_a)))
        ref_X
        (snd (AdaptationProvider (no_props\<lparr>adaptations := Some (Array [ad_a3, ad_a4])\<rparr>)
           (Some 0) heap_a)))
     = [\<lparr>component = 10, adaptation = ad_a\<rparr>] \<and>
   [\<lparr>component = 10, adaptation = ad_a\<rparr>] \<noteq> [\<lparr>component = 13, adaptation = ad_a3\<rparr>]"
  by (simp add: provider_defs heap_a_def example_defs
      useComponentAdaptations_def components_of_def)

theorem same_key_first_wins_witness:
  "wf_heap heap_a \<and> valid_context heap_a (Some 0) \<and>
   ref_id (ref ad_c) = ref_id ref_X \<and> ref_id (ref ad_c3) = ref_id ref_X \<and>
   key ad_c3 = key ad_c \<and> Adaptation (spec ad_c) = Some 15 \<and>
   Adaptation (spec ad_c3) = Some 19 \<and>
   components_of
     (snd (AdaptationProvider (no_props\<lparr>adaptations := Some (Array [ad_c, ad_c3])\<rparr>)
        (Some 0) heap_a))
     (useComponentAdaptations
        (Some (fst (AdaptationProvider (no_props\<lparr>adaptations := Some (Array [ad_c, ad_c3])\<rparr>)
           (Some 0) heap_a)))
        ref_X
        (snd (AdaptationProvider (no_props\<lparr>adaptations := Some (Array [ad_c, ad_c3])\<rparr>)
           (Some 0) heap_a)))
     = [\<lparr>component = 10, adaptation = ad_a\<rparr>, \<lparr>component = 15, adaptation = ad_c\<rparr>] \<and>
   propsInterceptors_of
     (snd (AdaptationProvider (no_props\<lparr>adaptations := Some (Array [ad_c, ad_c3])\<rparr>)
        (Some 0) heap_a))
     (useComponentAdaptations
        (Some (fst (AdaptationProvider (no_props\<lparr>adaptations := Some (Array [ad_c, ad_c3])\<rparr>)
           (Some 0) heap_a)))
        ref_X
        (snd (AdaptationProvider (no_props\<lparr>adaptations := Some (Array [ad_c, ad_c3])\<rparr>)
           (Some 0) heap_a)))
     = [\<lparr>propsInterceptor = 23, interceptor_adaptation = ad_c3\<rparr>]"
proof -
  have a: "ref_id (ref ad_c) = ref_id ref_X" "ref_id (ref ad_c3) = ref_id ref_X"
    "key ad_c3 = key ad_c" "Adaptation (spec ad_c) = Some 15" "Adaptation (spec ad_c3) = Some 19"
    by (simp_all add: example_defs)
  have k: "key ad_a \<noteq> key ad_c" "interceptProps (spec ad_c) = None"
    "interceptProps (spec ad_c3) = Some 23"
    by (simp_all add: example_defs)
  note t = same_key_first_wins[OF wf_heap_a valid_context_a surjective_pairing
      surjective_pairing surjective_pairing a]
  have c: "components_of
     (snd (AdaptationProvider (no_props\<lparr>adaptations := Some (Array [ad_c, ad_c3])\<rparr>)
        (Some 0) heap_a))
     (useComponentAdaptations
        (Some (fst (AdaptationProvider (no_props\<lparr>adaptations := Some (Array [ad_c, ad_c3])\<rparr>)
           (Some 0) heap_a)))
        ref_X
        (snd (AdaptationProvider (no_props\<lparr>adaptations := Some (Array [ad_c, ad_c3])\<rparr>)
           (Some 0) heap_a)))
     = [\<lparr>component = 10, adaptation = ad_a\<rparr>, \<lparr>component = 15, adaptation = ad_c\<rparr>]"
    using t[THEN conjunct1] k by (simp add: heap_a_X)
  have i: "propsInterceptors_of
     (snd (AdaptationProvider (no_props\<lparr>adaptations := Some (Array [ad_c, ad_c3])\<rparr>)
        (Some 0) heap_a))
     (useComponentAdaptations
        (Some (fst (AdaptationProvider (no_props\<lparr>adaptations := Some (Array [ad_c, ad_c3])\<rparr>)
           (Some 0) heap_a)))
        ref_X
        (snd (AdaptationProvider (no_props\<lparr>adaptations := Some (Array [ad_c, ad_c3])\<rparr>)
           (Some 0) heap_a)))
     = [\<lparr>propsInterceptor = 23, interceptor_adaptation = ad_c3\<rparr>]"
    using t[THEN conjunct2, THEN conjunct1] k by (simp add: heap_a_X)
  show ?thesis using c i a wf_heap_a valid_context_a by blast
qed

text \<open>
  Claim C4, as amended. Whatever the options are, each of the two lists that the child
  holds for a reference is the list inherited from the parent, as reset and the exclusions
  leave it and in its order, followed by elements that the adaptations step has made,
  each for this reference and from an adaptation of the options, in the order of the
  adaptations. When the adaptations are \<^verbatim>\<open>A\<close> then \<^verbatim>\<open>B\<close>, with different keys, both for
  the reference \<open>x\<close> and both with a replacement, and no inherited component of \<open>x\<close> has
  one of their keys, the components are the inherited ones followed by the element of
  \<^verbatim>\<open>A\<close> and then that of \<^verbatim>\<open>B\<close>; the same holds of the props interceptors when both
  have an interceptor.
\<close>

theorem inherited_before_appended:
  assumes "wf_heap h" "valid_context h parent"
    "AdaptationProvider props parent h = (child, h')"
  shows "(\<exists>ys. components_of h' (useComponentAdaptations (Some child) x h') =
             inherited_components props (ref_id x)
               (components_of h (useComponentAdaptations parent x h)) @ ys \<and>
           subseq (map adaptation ys)
             (case adaptations props of None \<Rightarrow> [] | Some as \<Rightarrow> as_array as) \<and>
           (\<forall>e \<in> set ys. ref_id (ref (adaptation e)) = ref_id x \<and>
              Adaptation (spec (adaptation e)) = Some (component e))) \<and>
     (\<exists>zs. propsInterceptors_of h' (useComponentAdaptations (Some child) x h') =
             inherited_interceptors props (ref_id x)
               (propsInterceptors_of h (useComponentAdaptations parent x h)) @ zs \<and>
           subseq (map interceptor_adaptation zs)
             (case adaptations props of None \<Rightarrow> [] | Some as \<Rightarrow> as_array as) \<and>
           (\<forall>i \<in> set zs. ref_id (ref (interceptor_adaptation i)) = ref_id x \<and>
              interceptProps (spec (interceptor_adaptation i)) = Some (propsInterceptor i))) \<and>
     (adaptations props = Some (Array [A, B]) \<and>
      ref_id (ref A) = ref_id x \<and> ref_id (ref B) = ref_id x \<and> key A \<noteq> key B \<and>
      Adaptation (spec A) = Some R1 \<and> Adaptation (spec B) = Some R2 \<and>
      (\<forall>e \<in> set (inherited_components props (ref_id x)
                    (components_of h (useComponentAdaptations parent x h))).
          key (adaptation e) \<noteq> key A \<and> key (adaptation e) \<noteq> key B) \<longrightarrow>
        components_of h' (useComponentAdaptations (Some child) x h') =
          inherited_components props (ref_id x)
            (components_of h (useComponentAdaptations parent x h)) @
          [\<lparr>component = R1, adaptation = A\<rparr>, \<lparr>component = R2, adaptation = B\<rparr>]) \<and>
     (adaptations props = Some (Array [A, B]) \<and>
      ref_id (ref A) = ref_id x \<and> ref_id (ref B) = ref_id x \<and> key A \<noteq> key B \<and>
      interceptProps (spec A) = Some I1 \<and> interceptProps (spec B) = Some I2 \<and>
      (\<forall>i \<in> set (inherited_interceptors props (ref_id x)
                    (propsInterceptors_of h (useComponentAdaptations parent x h))).
          key (interceptor_adaptation i) \<noteq> key A \<and>
          key (interceptor_adaptation i) \<noteq> key B) \<longrightarrow>
        propsInterceptors_of h' (useComponentAdaptations (Some child) x h') =
          inherited_interceptors props (ref_id x)
            (propsInterceptors_of h (useComponentAdaptations parent x h)) @
          [\<lparr>propsInterceptor = I1, interceptor_adaptation = A\<rparr>,
           \<lparr>propsInterceptor = I2, interceptor_adaptation = B\<rparr>])"
proof -
  define cinh where "cinh = inherited_components props (ref_id x)
      (components_of h (useComponentAdaptations parent x h))"
  define iinh where "iinh = inherited_interceptors props (ref_id x)
      (propsInterceptors_of h (useComponentAdaptations parent x h))"
  note c = child_components_steps[OF assms, of x, folded cinh_def]
  note i = child_propsInterceptors_steps[OF assms, of x, folded iinh_def]
  have 1: "\<exists>ys. components_of h' (useComponentAdaptations (Some child) x h') = cinh @ ys \<and>
           subseq (map adaptation ys)
             (case adaptations props of None \<Rightarrow> [] | Some as \<Rightarrow> as_array as) \<and>
           (\<forall>e \<in> set ys. ref_id (ref (adaptation e)) = ref_id x \<and>
              Adaptation (spec (adaptation e)) = Some (component e))"
    unfolding c new_adaptations_def by (rule fold_add_component_elements)
  have 2: "\<exists>zs. propsInterceptors_of h' (useComponentAdaptations (Some child) x h') =
             iinh @ zs \<and>
           subseq (map interceptor_adaptation zs)
             (case adaptations props of None \<Rightarrow> [] | Some as \<Rightarrow> as_array as) \<and>
           (\<forall>i \<in> set zs. ref_id (ref (interceptor_adaptation i)) = ref_id x \<and>
              interceptProps (spec (interceptor_adaptation i)) = Some (propsInterceptor i))"
    unfolding i new_adaptations_def by (rule fold_add_interceptor_elements)
  have 3: "components_of h' (useComponentAdaptations (Some child) x h') =
          cinh @ [\<lparr>component = R1, adaptation = A\<rparr>, \<lparr>component = R2, adaptation = B\<rparr>]"
    if "adaptations props = Some (Array [A, B])"
      "ref_id (ref A) = ref_id x" "ref_id (ref B) = ref_id x" "key A \<noteq> key B"
      "Adaptation (spec A) = Some R1" "Adaptation (spec B) = Some R2"
      "\<forall>e \<in> set cinh. key (adaptation e) \<noteq> key A \<and> key (adaptation e) \<noteq> key B"
    unfolding c new_adaptations_def using that
    by (auto simp: add_component_eq[OF that(5)] add_component_eq[OF that(6)])
  have 4: "propsInterceptors_of h' (useComponentAdaptations (Some child) x h') =
          iinh @ [\<lparr>propsInterceptor = I1, interceptor_adaptation = A\<rparr>,
                  \<lparr>propsInterceptor = I2, interceptor_adaptation = B\<rparr>]"
    if "adaptations props = Some (Array [A, B])"
      "ref_id (ref A) = ref_id x" "ref_id (ref B) = ref_id x" "key A \<noteq> key B"
      "interceptProps (spec A) = Some I1" "interceptProps (spec B) = Some I2"
      "\<forall>i \<in> set iinh. key (interceptor_adaptation i) \<noteq> key A \<and>
          key (interceptor_adaptation i) \<noteq> key B"
    unfolding i new_adaptations_def using that
    by (auto simp: add_interceptor_eq[OF that(5)] add_interceptor_eq[OF that(6)])
  show ?thesis
    unfolding cinh_def[symmetric] iinh_def[symmetric] using 1 2 3 4 by blast
qed

text \<open>
  The same registry, given an adaptation with key \<^verbatim>\<open>a\<close> and then one with key \<^verbatim>\<open>c\<close>:
  the child reads the inherited component and the second adaptation, not the first.
\<close>

theorem insertion_order_counterexample:
  "components_of
     (snd (AdaptationProvider (no_props\<lparr>adaptations := Some (Array [ad_a3, ad_c])\<rparr>)
        (Some 0) heap_a))
     (useComponentAdaptations
        (Some (fst (AdaptationProvider (no_props\<lparr>adaptations := Some (Array [ad_a3, ad_c])\<rparr>)
           (Some 0) heap_a)))
        ref_X
        (snd (AdaptationProvider (no_props\<lparr>adaptations := Some (Array [ad_a3, ad_c])\<rparr>)
           (Some 0) heap_a)))
     = [\<lparr>component = 10, adaptation = ad_a\<rparr>, \<lparr>component = 15, adaptation = ad_c\<rparr>] \<and>
   [\<lparr>component = 10, adaptation = ad_a\<rparr>, \<lparr>component = 15, adaptation = ad_c\<rparr>] \<noteq>
   [\<lparr>component = 13, adaptation = ad_a3\<rparr>, \<lparr>component = 15, adaptation = ad_c\<rparr>]"
  by (simp add: provider_defs heap_a_def example_defs
      useComponentAdaptations_def components_of_def)

theorem inherited_before_appended_witness:
  "wf_heap heap_ab \<and> valid_context heap_ab (Some 0) \<and>
   ref_id (ref ad_e) = ref_id ref_X \<and> ref_id (ref ad_f) = ref_id ref_X \<and>
   key ad_e \<noteq> key ad_f \<and>
   Adaptation (spec ad_e) = Some 30 \<and> Adaptation (spec ad_f) = Some 31 \<and>
   interceptProps (spec ad_e) = Some 21 \<and> interceptProps (spec ad_f) = Some 22 \<and>
   components_of heap_ab (useComponentAdaptations (Some 0) ref_X heap_ab) =
     [\<lparr>component = 10, adaptation = ad_a\<rparr>, \<lparr>component = 11, adaptation = ad_b\<rparr>] \<and>
   propsInterceptors_of heap_ab (useComponentAdaptations (Some 0) ref_X heap_ab) =
     [\<lparr>propsInterceptor = 20, interceptor_adaptation = ad_b\<rparr>] \<and>
   components_of
     (snd (AdaptationProvider
        (no_props\<lparr>excludePlugins := Some [1], adaptations := Some (Array [ad_e, ad_f])\<rparr>)
        (Some 0) heap_ab))
     (useComponentAdaptations
        (Some (fst (AdaptationProvider
           (no_props\<lparr>excludePlugins := Some [1], adaptations := Some (Array [ad_e, ad_f])\<rparr>)
           (Some 0) heap_ab)))
        ref_X
        (snd (AdaptationProvider
           (no_props\<lparr>excludePlugins := Some [1], adaptations := Some (Array [ad_e, ad_f])\<rparr>)
           (Some 0) heap_ab)))
     = [\<lparr>component = 11, adaptation = ad_b\<rparr>, \<lparr>component = 30, adaptation = ad_e\<rparr>,
        \<lparr>component = 31, adaptation = ad_f\<rparr>] \<and>
   propsInterceptors_of
     (snd (AdaptationProvider
        (no_props\<lparr>excludePlugins := Some [1], adaptations := Some (Array [ad_e, ad_f])\<rparr>)
        (Some 0) heap_ab))
     (useComponentAdaptations
        (Some (fst (AdaptationProvider
           (no_props\<lparr>excludePlugins := Some [1], adaptations := Some (Array [ad_e, ad_f])\<rparr>)
           (Some 0) heap_ab)))
        ref_X
        (snd (AdaptationProvider
           (no_props\<lparr>excludePlugins := Some [1], adaptations := Some (Array [ad_e, ad_f])\<rparr>)
           (Some 0) heap_ab)))
     = [\<lparr>propsInterceptor = 20, interceptor_adaptation = ad_b\<rparr>,
        \<lparr>propsInterceptor = 21, interceptor_adaptation = ad_e\<rparr>,
        \<lparr>propsInterceptor = 22, interceptor_adaptation = ad_f\<rparr>]"
proof -
  have a: "ref_id (ref ad_e) = ref_id ref_X" "ref_id (ref ad_f) = ref_id ref_X"
    "key ad_e \<noteq> key ad_f"
    "Adaptation (spec ad_e) = Some 30" "Adaptation (spec ad_f) = Some 31"
    "interceptProps (spec ad_e) = Some 21" "interceptProps (spec ad_f) = Some 22"
    by (simp_all add: example_defs)
  have p: "adaptations
      (no_props\<lparr>excludePlugins := Some [1], adaptations := Some (Array [ad_e, ad_f])\<rparr>) =
      Some (Array [ad_e, ad_f])"
    by simp
  have ci: "inherited_components
      (no_props\<lparr>excludePlugins := Some [1], adaptations := Some (Array [ad_e, ad_f])\<rparr>)
      (ref_id ref_X)
      [\<lparr>component = 10, adaptation = ad_a\<rparr>, \<lparr>component = 11, adaptation = ad_b\<rparr>] =
      [\<lparr>component = 11, adaptation = ad_b\<rparr>]"
    by (simp add: inherited_components_def no_props_def example_defs)
  have ii: "inherited_interceptors
      (no_props\<lparr>excludePlugins := Some [1], adaptations := Some (Array [ad_e, ad_f])\<rparr>)
      (ref_id ref_X)
      [\<lparr>propsInterceptor = 20, interceptor_adaptation = ad_b\<rparr>] =
      [\<lparr>propsInterceptor = 20, interceptor_adaptation = ad_b\<rparr>]"
    by (simp add: inherited_interceptors_def no_props_def example_defs)
  have k: "key ad_b \<noteq> key ad_e" "key ad_b \<noteq> key ad_f"
    by (simp_all add: example_defs)
  note t = inherited_before_appended[OF wf_heap_ab valid_context_ab surjective_pairing,
      where props = "no_props\<lparr>excludePlugins := Some [1],
          adaptations := Some (Array [ad_e, ad_f])\<rparr>"
        and x = ref_X and A = ad_e and B = ad_f
        and ?R1.0 = 30 and ?R2.0 = 31 and ?I1.0 = 21 and ?I2.0 = 22]
  have c: "components_of
     (snd (AdaptationProvider
        (no_props\<lparr>excludePlugins := Some [1], adaptations := Some (Array [ad_e, ad_f])\<rparr>)
        (Some 0) heap_ab))
     (useComponentAdaptations
        (Some (fst (AdaptationProvider
           (no_props\<lparr>excludePlugins := Some [1], adaptations := Some (Array [ad_e, ad_f])\<rparr>)
           (Some 0) heap_ab)))
        ref_X
        (snd (AdaptationProvider
           (no_props\<lparr>excludePlugins := Some [1], adaptations := Some (Array [ad_e, ad_f])\<rparr>)
           (Some 0) heap_ab)))
     = [\<lparr>component = 11, adaptation = ad_b\<rparr>, \<lparr>component = 30, adaptation = ad_e\<rparr>,
        \<lparr>component = 31, adaptation = ad_f\<rparr>]"
    using t[THEN conjunct2, THEN conjunct2, THEN conjunct1, unfolded heap_ab_X ci] a k p
    by simp
  have i: "propsInterceptors_of
     (snd (AdaptationProvider
        (no_props\<lparr>excludePlugins := Some [1], adaptations := Some (Array [ad_e, ad_f])\<rparr>)
        (Some 0) heap_ab))
     (useComponentAdaptations
        (Some (fst (AdaptationProvider
           (no_props\<lparr>excludePlugins := Some [1], adaptations := Some (Array [ad_e, ad_f])\<rparr>)
           (Some 0) heap_ab)))
        ref_X
        (snd (AdaptationProvider
           (no_props\<lparr>excludePlugins := Some [1], adaptations := Some (Array [ad_e, ad_f])\<rparr>)
           (Some 0) heap_ab)))
     = [\<lparr>propsInterceptor = 20, interceptor_adaptation = ad_b\<rparr>,
        \<lparr>propsInterceptor = 21, interceptor_adaptation = ad_e\<rparr>,
        \<lparr>propsInterceptor = 22, interceptor_adaptation = ad_f\<rparr>]"
    using t[THEN conjunct2, THEN conjunct2, THEN conjunct2, unfolded heap_ab_X ii] a k p
    by simp
  show ?thesis using c i a wf_heap_ab valid_context_ab heap_ab_X by blast
qed

text \<open>
  Claim C5. The options are applied in the order \<^verbatim>\<open>reset\<close>, \<^verbatim>\<open>excludeComponents\<close>,
  \<^verbatim>\<open>excludePlugins\<close> with \<^verbatim>\<open>exclude\<close>, \<^verbatim>\<open>adaptations\<close>. For every reference the
  components of the child are those of the parent, emptied by a reset or by the
  exclusion of the reference, then filtered by plugin and by key, and then extended by
  the adaptations; its props interceptors are those of the parent, emptied in the same
  way and then extended. One provider with all the options gives the lists of four nested
  providers with one group of options each, in that order. In particular, when the parent
  holds for a reference a component of plugin \<open>P1\<close> and then one of another plugin, and
  the provider excludes \<open>P1\<close> and is given an adaptation with the key of the second
  component, the child reads the second component alone. The order shows where two
  options meet: an adaptation with the key of the excluded first component is appended,
  also when it is itself of plugin \<open>P1\<close>; and an adaptation for an excluded reference,
  or given with a reset, is the one component of that reference.
\<close>

theorem options_applied_in_order:
  assumes "wf_heap h" "valid_context h parent"
    "AdaptationProvider props parent h = (child, h')"
    "AdaptationProvider (no_props\<lparr>reset := reset props\<rparr>) parent h = (c1, h1)"
    "AdaptationProvider (no_props\<lparr>excludeComponents := excludeComponents props\<rparr>) (Some c1) h1
       = (c2, h2)"
    "AdaptationProvider
       (no_props\<lparr>excludePlugins := excludePlugins props, exclude := exclude props\<rparr>) (Some c2) h2
       = (c3, h3)"
    "AdaptationProvider (no_props\<lparr>adaptations := adaptations props\<rparr>) (Some c3) h3 = (c4, h4)"
  shows "components_of h' (useComponentAdaptations (Some child) r h') =
       components_of h4 (useComponentAdaptations (Some c4) r h4) \<and>
     propsInterceptors_of h' (useComponentAdaptations (Some child) r h') =
       propsInterceptors_of h4 (useComponentAdaptations (Some c4) r h4) \<and>
     components_of h' (useComponentAdaptations (Some child) r h') =
       fold (\<lambda>a cs. if ref_id (ref a) = ref_id r then add_component a cs else cs)
         (case adaptations props of None \<Rightarrow> [] | Some as \<Rightarrow> as_array as)
         (filter (\<lambda>c. key (adaptation c) \<notin>
                    set (map key (case exclude props of None \<Rightarrow> [] | Some es \<Rightarrow> es)))
            (filter (\<lambda>c. case plugin (adaptation c) of
                           None \<Rightarrow> True
                         | Some p \<Rightarrow>
                             p \<notin> set (case excludePlugins props of None \<Rightarrow> [] | Some ps \<Rightarrow> ps))
               (if ref_id r \<in> (case excludeComponents props of
                                  None \<Rightarrow> {} | Some ec \<Rightarrow> ref_id ` set (as_array ec))
                then []
                else if (case reset props of None \<Rightarrow> False | Some b \<Rightarrow> b) then []
                else components_of h (useComponentAdaptations parent r h)))) \<and>
     propsInterceptors_of h' (useComponentAdaptations (Some child) r h') =
       fold (\<lambda>a ps. if ref_id (ref a) = ref_id r then add_interceptor a ps else ps)
         (case adaptations props of None \<Rightarrow> [] | Some as \<Rightarrow> as_array as)
         (if ref_id r \<in> (case excludeComponents props of
                            None \<Rightarrow> {} | Some ec \<Rightarrow> ref_id ` set (as_array ec))
          then []
          else if (case reset props of None \<Rightarrow> False | Some b \<Rightarrow> b) then []
          else propsInterceptors_of h (useComponentAdaptations parent r h)) \<and>
     (props = no_props\<lparr>excludePlugins := Some [P1], adaptations := Some (Single n)\<rparr> \<and>
      components_of h (useComponentAdaptations parent r h) = [ea, eb] \<and>
      plugin (adaptation ea) = Some P1 \<and> plugin (adaptation eb) = Some P2 \<and> P2 \<noteq> P1 \<and>
      ref_id (ref n) = ref_id r \<and> key n = key (adaptation eb) \<longrightarrow>
        components_of h' (useComponentAdaptations (Some child) r h') = [eb]) \<and>
     (props = no_props\<lparr>excludePlugins := Some [P1], adaptations := Some (Single n)\<rparr> \<and>
      components_of h (useComponentAdaptations parent r h) = [ea, eb] \<and>
      plugin (adaptation ea) = Some P1 \<and> plugin (adaptation eb) = Some P2 \<and> P2 \<noteq> P1 \<and>
      ref_id (ref n) = ref_id r \<and> key n = key (adaptation ea) \<and>
      key (adaptation eb) \<noteq> key n \<and> Adaptation (spec n) = Some f \<longrightarrow>
        components_of h' (useComponentAdaptations (Some child) r h') =
          [eb, \<lparr>component = f, adaptation = n\<rparr>]) \<and>
     (props = no_props\<lparr>excludeComponents := Some (Single r), adaptations := Some (Single n)\<rparr> \<and>
      ref_id (ref n) = ref_id r \<and> Adaptation (spec n) = Some f \<longrightarrow>
        components_of h' (useComponentAdaptations (Some child) r h') =
          [\<lparr>component = f, adaptation = n\<rparr>]) \<and>
     (props = no_props\<lparr>reset := Some True, adaptations := Some (Single n)\<rparr> \<and>
      ref_id (ref n) = ref_id r \<and> Adaptation (spec n) = Some f \<longrightarrow>
        components_of h' (useComponentAdaptations (Some child) r h') =
          [\<lparr>component = f, adaptation = n\<rparr>])"
proof -
  have w1: "wf_heap h1" "valid_context h1 (Some c1)"
    using wf_heap_AdaptationProvider[OF assms(1,2,4)] by simp_all
  have w2: "wf_heap h2" "valid_context h2 (Some c2)"
    using wf_heap_AdaptationProvider[OF w1 assms(5)] by simp_all
  have w3: "wf_heap h3" "valid_context h3 (Some c3)"
    using wf_heap_AdaptationProvider[OF w2 assms(6)] by simp_all
  note c = child_components_fold[OF assms(1,2,3), of r]
    child_components_fold[OF assms(1,2,4), of r]
    child_components_fold[OF w1 assms(5), of r]
    child_components_fold[OF w2 assms(6), of r]
    child_components_fold[OF w3 assms(7), of r]
  note i = child_propsInterceptors_fold[OF assms(1,2,3), of r]
    child_propsInterceptors_fold[OF assms(1,2,4), of r]
    child_propsInterceptors_fold[OF w1 assms(5), of r]
    child_propsInterceptors_fold[OF w2 assms(6), of r]
    child_propsInterceptors_fold[OF w3 assms(7), of r]
  have comps: "components_of h' (useComponentAdaptations (Some child) r h') =
       components_of h4 (useComponentAdaptations (Some c4) r h4)"
    unfolding c
    by (simp add: props_parts props_parts_same kept_nothing_excluded kept_Nil
        reset_on_def[symmetric])
  have ints: "propsInterceptors_of h' (useComponentAdaptations (Some child) r h') =
       propsInterceptors_of h4 (useComponentAdaptations (Some c4) r h4)"
    unfolding i
    by (simp add: props_parts props_parts_same reset_on_def[symmetric])
  note cs = child_components_steps[OF assms(1,2,3), of r,
      unfolded inherited_components_def new_adaptations_def]
  note ps = child_propsInterceptors_steps[OF assms(1,2,3), of r,
      unfolded inherited_interceptors_def new_adaptations_def]
  have ex1: "components_of h' (useComponentAdaptations (Some child) r h') = [eb]"
    if "props = no_props\<lparr>excludePlugins := Some [P1], adaptations := Some (Single n)\<rparr>"
      "components_of h (useComponentAdaptations parent r h) = [ea, eb]"
      "plugin (adaptation ea) = Some P1" "plugin (adaptation eb) = Some P2" "P2 \<noteq> P1"
      "ref_id (ref n) = ref_id r" "key n = key (adaptation eb)"
  proof -
    have "add_component n [eb] = [eb]"
      using that(7) by (intro add_component_same_key[of eb]) simp_all
    then show ?thesis
      unfolding cs using that by (simp add: no_props_def)
  qed
  have ex2: "components_of h' (useComponentAdaptations (Some child) r h') =
          [eb, \<lparr>component = f, adaptation = n\<rparr>]"
    if "props = no_props\<lparr>excludePlugins := Some [P1], adaptations := Some (Single n)\<rparr>"
      "components_of h (useComponentAdaptations parent r h) = [ea, eb]"
      "plugin (adaptation ea) = Some P1" "plugin (adaptation eb) = Some P2" "P2 \<noteq> P1"
      "ref_id (ref n) = ref_id r" "key n = key (adaptation ea)"
      "key (adaptation eb) \<noteq> key n" "Adaptation (spec n) = Some f"
    unfolding cs using that by (simp add: no_props_def add_component_eq[OF that(9)])
  have ex3: "components_of h' (useComponentAdaptations (Some child) r h') =
          [\<lparr>component = f, adaptation = n\<rparr>]"
    if "props = no_props\<lparr>excludeComponents := Some (Single r),
          adaptations := Some (Single n)\<rparr>"
      "ref_id (ref n) = ref_id r" "Adaptation (spec n) = Some f"
    unfolding cs using that by (simp add: no_props_def add_component_eq[OF that(3)])
  have ex4: "components_of h' (useComponentAdaptations (Some child) r h') =
          [\<lparr>component = f, adaptation = n\<rparr>]"
    if "props = no_props\<lparr>reset := Some True, adaptations := Some (Single n)\<rparr>"
      "ref_id (ref n) = ref_id r" "Adaptation (spec n) = Some f"
    unfolding cs using that by (simp add: no_props_def add_component_eq[OF that(3)])
  show ?thesis
    using comps ints cs ps ex1 ex2 ex3 ex4 by blast
qed

theorem options_applied_in_order_witness:
  "wf_heap heap_ab \<and> valid_context heap_ab (Some 0) \<and>
   components_of heap_ab (useComponentAdaptations (Some 0) ref_X heap_ab) =
     [\<lparr>component = 10, adaptation = ad_a\<rparr>, \<lparr>component = 11, adaptation = ad_b\<rparr>] \<and>
   plugin ad_a = Some 1 \<and> plugin ad_b = Some 2 \<and> key ad_b2 = key ad_b \<and>
   key ad_b \<noteq> key ad_a \<and>
   ref_id (ref ad_b2) = ref_id ref_X \<and> ref_id (ref ad_a) = ref_id ref_X \<and>
   ref_id (ref ad_c) = ref_id ref_X \<and>
   Adaptation (spec ad_a) = Some 10 \<and> Adaptation (spec ad_c) = Some 15 \<and>
   components_of
     (snd (AdaptationProvider
        (no_props\<lparr>excludePlugins := Some [1], adaptations := Some (Single ad_b2)\<rparr>)
        (Some 0) heap_ab))
     (useComponentAdaptations
        (Some (fst (AdaptationProvider
           (no_props\<lparr>excludePlugins := Some [1], adaptations := Some (Single ad_b2)\<rparr>)
           (Some 0) heap_ab)))
        ref_X
        (snd (AdaptationProvider
           (no_props\<lparr>excludePlugins := Some [1], adaptations := Some (Single ad_b2)\<rparr>)
           (Some 0) heap_ab)))
     = [\<lparr>component = 11, adaptation = ad_b\<rparr>] \<and>
   components_of
     (snd (AdaptationProvider
        (no_props\<lparr>excludePlugins := Some [1], adaptations := Some (Single ad_a)\<rparr>)
        (Some 0) heap_ab))
     (useComponentAdaptations
        (Some (fst (AdaptationProvider
           (no_props\<lparr>excludePlugins := Some [1], adaptations := Some (Single ad_a)\<rparr>)
           (Some 0) heap_ab)))
        ref_X
        (snd (AdaptationProvider
           (no_props\<lparr>excludePlugins := Some [1], adaptations := Some (Single ad_a)\<rparr>)
           (Some 0) heap_ab)))
     = [\<lparr>component = 11, adaptation = ad_b\<rparr>, \<lparr>component = 10, adaptation = ad_a\<rparr>] \<and>
   components_of
     (snd (AdaptationProvider
        (no_props\<lparr>excludeComponents := Some (Single ref_X), adaptations := Some (Single ad_c)\<rparr>)
        (Some 0) heap_ab))
     (useComponentAdaptations
        (Some (fst (AdaptationProvider
           (no_props\<lparr>excludeComponents := Some (Single ref_X), adaptations := Some (Single ad_c)\<rparr>)
           (Some 0) heap_ab)))
        ref_X
        (snd (AdaptationProvider
           (no_props\<lparr>excludeComponents := Some (Single ref_X), adaptations := Some (Single ad_c)\<rparr>)
           (Some 0) heap_ab)))
     = [\<lparr>component = 15, adaptation = ad_c\<rparr>] \<and>
   components_of
     (snd (AdaptationProvider
        (no_props\<lparr>reset := Some True, adaptations := Some (Single ad_c)\<rparr>)
        (Some 0) heap_ab))
     (useComponentAdaptations
        (Some (fst (AdaptationProvider
           (no_props\<lparr>reset := Some True, adaptations := Some (Single ad_c)\<rparr>)
           (Some 0) heap_ab)))
        ref_X
        (snd (AdaptationProvider
           (no_props\<lparr>reset := Some True, adaptations := Some (Single ad_c)\<rparr>)
           (Some 0) heap_ab)))
     = [\<lparr>component = 15, adaptation = ad_c\<rparr>]"
proof -
  have a: "plugin (adaptation \<lparr>component = 10, adaptation = ad_a\<rparr>) = Some 1"
    "plugin (adaptation \<lparr>component = 11, adaptation = ad_b\<rparr>) = Some 2"
    "key ad_b2 = key (adaptation \<lparr>component = 11, adaptation = ad_b\<rparr>)"
    "key ad_a = key (adaptation \<lparr>component = 10, adaptation = ad_a\<rparr>)"
    "key (adaptation \<lparr>component = 11, adaptation = ad_b\<rparr>) \<noteq> key ad_a"
    "ref_id (ref ad_b2) = ref_id ref_X" "ref_id (ref ad_a) = ref_id ref_X"
    "ref_id (ref ad_c) = ref_id ref_X"
    "Adaptation (spec ad_a) = Some 10" "Adaptation (spec ad_c) = Some 15"
    "(2::nat) \<noteq> 1"
    by (simp_all add: example_defs)
  have b: "plugin ad_a = Some 1" "plugin ad_b = Some 2" "key ad_b2 = key ad_b"
    "key ad_b \<noteq> key ad_a"
    by (simp_all add: example_defs)
  note t1 = options_applied_in_order[OF wf_heap_ab valid_context_ab surjective_pairing
      surjective_pairing surjective_pairing surjective_pairing surjective_pairing,
      where props = "no_props\<lparr>excludePlugins := Some [1], adaptations := Some (Single ad_b2)\<rparr>"
        and r = ref_X and ?P1.0 = 1 and ?P2.0 = 2 and n = ad_b2 and f = 18
        and ea = "\<lparr>component = 10, adaptation = ad_a\<rparr>"
        and eb = "\<lparr>component = 11, adaptation = ad_b\<rparr>",
      THEN conjunct2, THEN conjunct2, THEN conjunct2, THEN conjunct2, THEN conjunct1]
  note t2 = options_applied_in_order[OF wf_heap_ab valid_context_ab surjective_pairing
      surjective_pairing surjective_pairing surjective_pairing surjective_pairing,
      where props = "no_props\<lparr>excludePlugins := Some [1], adaptations := Some (Single ad_a)\<rparr>"
        and r = ref_X and ?P1.0 = 1 and ?P2.0 = 2 and n = ad_a and f = 10
        and ea = "\<lparr>component = 10, adaptation = ad_a\<rparr>"
        and eb = "\<lparr>component = 11, adaptation = ad_b\<rparr>",
      THEN conjunct2, THEN conjunct2, THEN conjunct2, THEN conjunct2, THEN conjunct2, THEN conjunct1]
  note t3 = options_applied_in_order[OF wf_heap_ab valid_context_ab surjective_pairing
      surjective_pairing surjective_pairing surjective_pairing surjective_pairing,
      where props = "no_props\<lparr>excludeComponents := Some (Single ref_X), adaptations := Some (Single ad_c)\<rparr>"
        and r = ref_X and ?P1.0 = 1 and ?P2.0 = 2 and n = ad_c and f = 15
        and ea = "\<lparr>component = 10, adaptation = ad_a\<rparr>"
        and eb = "\<lparr>component = 11, adaptation = ad_b\<rparr>",
      THEN conjunct2, THEN conjunct2, THEN conjunct2, THEN conjunct2, THEN conjunct2, THEN conjunct2, THEN conjunct1]
  note t4 = options_applied_in_order[OF wf_heap_ab valid_context_ab surjective_pairing
      surjective_pairing surjective_pairing surjective_pairing surjective_pairing,
      where props = "no_props\<lparr>reset := Some True, adaptations := Some (Single ad_c)\<rparr>"
        and r = ref_X and ?P1.0 = 1 and ?P2.0 = 2 and n = ad_c and f = 15
        and ea = "\<lparr>component = 10, adaptation = ad_a\<rparr>"
        and eb = "\<lparr>component = 11, adaptation = ad_b\<rparr>",
      THEN conjunct2, THEN conjunct2, THEN conjunct2, THEN conjunct2, THEN conjunct2, THEN conjunct2, THEN conjunct2]
  have r1: "components_of
     (snd (AdaptationProvider
        (no_props\<lparr>excludePlugins := Some [1], adaptations := Some (Single ad_b2)\<rparr>)
        (Some 0) heap_ab))
     (useComponentAdaptations
        (Some (fst (AdaptationProvider
           (no_props\<lparr>excludePlugins := Some [1], adaptations := Some (Single ad_b2)\<rparr>)
           (Some 0) heap_ab)))
        ref_X
        (snd (AdaptationProvider
           (no_props\<lparr>excludePlugins := Some [1], adaptations := Some (Single ad_b2)\<rparr>)
           (Some 0) heap_ab)))
     = [\<lparr>component = 11, adaptation = ad_b\<rparr>]"
    using t1 a heap_ab_X(1) by blast
  have r2: "components_of
     (snd (AdaptationProvider
        (no_props\<lparr>excludePlugins := Some [1], adaptations := Some (Single ad_a)\<rparr>)
        (Some 0) heap_ab))
     (useComponentAdaptations
        (Some (fst (AdaptationProvider
           (no_props\<lparr>excludePlugins := Some [1], adaptations := Some (Single ad_a)\<rparr>)
           (Some 0) heap_ab)))
        ref_X
        (snd (AdaptationProvider
           (no_props\<lparr>excludePlugins := Some [1], adaptations := Some (Single ad_a)\<rparr>)
           (Some 0) heap_ab)))
     = [\<lparr>component = 11, adaptation = ad_b\<rparr>, \<lparr>component = 10, adaptation = ad_a\<rparr>]"
    using t2 a heap_ab_X(1) by blast
  have r3: "components_of
     (snd (AdaptationProvider
        (no_props\<lparr>excludeComponents := Some (Single ref_X), adaptations := Some (Single ad_c)\<rparr>)
        (Some 0) heap_ab))
     (useComponentAdaptations
        (Some (fst (AdaptationProvider
           (no_props\<lparr>excludeComponents := Some (Single ref_X), adaptations := Some (Single ad_c)\<rparr>)
           (Some 0) heap_ab)))
        ref_X
        (snd (AdaptationProvider
           (no_props\<lparr>excludeComponents := Some (Single ref_X), adaptations := Some (Single ad_c)\<rparr>)
           (Some 0) heap_ab)))
     = [\<lparr>component = 15, adaptation = ad_c\<rparr>]"
    using t3 a by blast
  have r4: "components_of
     (snd (AdaptationProvider
        (no_props\<lparr>reset := Some True, adaptations := Some (Single ad_c)\<rparr>)
        (Some 0) heap_ab))
     (useComponentAdaptations
        (Some (fst (AdaptationProvider
           (no_props\<lparr>reset := Some True, adaptations := Some (Single ad_c)\<rparr>)
           (Some 0) heap_ab)))
        ref_X
        (snd (AdaptationProvider
           (no_props\<lparr>reset := Some True, adaptations := Some (Single ad_c)\<rparr>)
           (Some 0) heap_ab)))
     = [\<lparr>component = 15, adaptation = ad_c\<rparr>]"
    using t4 a by blast
  show ?thesis
    using r1 r2 r3 r4 a(6-10) b wf_heap_ab valid_context_ab heap_ab_X(1) by blast
qed

text \<open>
  Claim C6. The exclusion of plugins and of adaptations filters components only. The props
  interceptors that the child reads are those it reads when the two exclusion options
  are left out of the same props; and a provider with these two options alone reads the
  props interceptors of the parent, and the components of the parent without those of an
  excluded plugin and then without those of an excluded key.
\<close>

theorem exclusion_keeps_propsInterceptors:
  assumes "wf_heap h" "valid_context h parent"
    "AdaptationProvider props parent h = (child, h')"
    "AdaptationProvider (props\<lparr>excludePlugins := None, exclude := None\<rparr>) parent h = (c0, h0)"
  shows "propsInterceptors_of h' (useComponentAdaptations (Some child) r h') =
       propsInterceptors_of h0 (useComponentAdaptations (Some c0) r h0) \<and>
     (adaptations props = None \<and> reset props = None \<and> excludeComponents props = None \<longrightarrow>
        propsInterceptors_of h' (useComponentAdaptations (Some child) r h') =
          propsInterceptors_of h (useComponentAdaptations parent r h) \<and>
        components_of h' (useComponentAdaptations (Some child) r h') =
          filter (\<lambda>c. key (adaptation c) \<notin>
                    set (map key (case exclude props of None \<Rightarrow> [] | Some es \<Rightarrow> es)))
            (filter (\<lambda>c. case plugin (adaptation c) of
                           None \<Rightarrow> True
                         | Some p \<Rightarrow>
                             p \<notin> set (case excludePlugins props of None \<Rightarrow> [] | Some ps \<Rightarrow> ps))
               (components_of h (useComponentAdaptations parent r h))))"
proof -
  have same: "reset_on (props\<lparr>excludePlugins := None, exclude := None\<rparr>) = reset_on props"
    "excluded_ids (props\<lparr>excludePlugins := None, exclude := None\<rparr>) = excluded_ids props"
    "new_adaptations (props\<lparr>excludePlugins := None, exclude := None\<rparr>) = new_adaptations props"
    by (simp_all add: reset_on_def excluded_ids_def new_adaptations_def)
  have 1: "propsInterceptors_of h' (useComponentAdaptations (Some child) r h') =
       propsInterceptors_of h0 (useComponentAdaptations (Some c0) r h0)"
    unfolding child_propsInterceptors_fold[OF assms(1,2,3), of r]
      child_propsInterceptors_fold[OF assms(1,2,4), of r] same
    by (rule refl)
  have "propsInterceptors_of h' (useComponentAdaptations (Some child) r h') =
          propsInterceptors_of h (useComponentAdaptations parent r h) \<and>
        components_of h' (useComponentAdaptations (Some child) r h') =
          kept (excluded_plugins props) (excluded_keys props)
            (components_of h (useComponentAdaptations parent r h))"
    if "adaptations props = None" "reset props = None" "excludeComponents props = None"
    unfolding child_propsInterceptors_fold[OF assms(1,2,3), of r]
      child_components_fold[OF assms(1,2,3), of r]
    using that by (simp add: reset_on_def excluded_ids_def new_adaptations_def)
  then show ?thesis
    using 1 unfolding kept_def excluded_plugins_def excluded_keys_def by blast
qed

theorem exclusion_keeps_propsInterceptors_witness:
  "wf_heap heap_ab \<and> valid_context heap_ab (Some 0) \<and>
   propsInterceptors_of heap_ab (useComponentAdaptations (Some 0) ref_X heap_ab) =
     [\<lparr>propsInterceptor = 20, interceptor_adaptation = ad_b\<rparr>] \<and>
   propsInterceptors_of
     (snd (AdaptationProvider (no_props\<lparr>excludePlugins := Some [2]\<rparr>) (Some 0) heap_ab))
     (useComponentAdaptations
        (Some (fst (AdaptationProvider (no_props\<lparr>excludePlugins := Some [2]\<rparr>) (Some 0) heap_ab)))
        ref_X
        (snd (AdaptationProvider (no_props\<lparr>excludePlugins := Some [2]\<rparr>) (Some 0) heap_ab)))
     = [\<lparr>propsInterceptor = 20, interceptor_adaptation = ad_b\<rparr>] \<and>
   components_of
     (snd (AdaptationProvider (no_props\<lparr>excludePlugins := Some [2]\<rparr>) (Some 0) heap_ab))
     (useComponentAdaptations
        (Some (fst (AdaptationProvider (no_props\<lparr>excludePlugins := Some [2]\<rparr>) (Some 0) heap_ab)))
        ref_X
        (snd (AdaptationProvider (no_props\<lparr>excludePlugins := Some [2]\<rparr>) (Some 0) heap_ab)))
     = [\<lparr>component = 10, adaptation = ad_a\<rparr>]"
proof -
  have p: "adaptations (no_props\<lparr>excludePlugins := Some [2]\<rparr>) = None"
    "reset (no_props\<lparr>excludePlugins := Some [2]\<rparr>) = None"
    "excludeComponents (no_props\<lparr>excludePlugins := Some [2]\<rparr>) = None"
    "exclude (no_props\<lparr>excludePlugins := Some [2]\<rparr>) = None"
    "excludePlugins (no_props\<lparr>excludePlugins := Some [2]\<rparr>) = Some [2]"
    by (simp_all add: no_props_def)
  have a: "plugin ad_a = Some 1" "plugin ad_b = Some 2"
    by (simp_all add: example_defs)
  note t = exclusion_keeps_propsInterceptors[OF wf_heap_ab valid_context_ab surjective_pairing
      surjective_pairing,
      where props = "no_props\<lparr>excludePlugins := Some [2]\<rparr>" and r = ref_X,
      THEN conjunct2]
  show ?thesis using t p a wf_heap_ab valid_context_ab by (simp add: heap_ab_X)
qed

text \<open>
  Claim C7. With \<^verbatim>\<open>{ reset: true }\<close> the new registry starts empty: a lookup of any
  reference in it, in particular of one that has an entry in the parent, returns
  \<^verbatim>\<open>noAdaptations\<close>.
\<close>

theorem reset_discards_parent:
  assumes "wf_heap h" "valid_context h parent"
    "AdaptationProvider (no_props\<lparr>reset := Some True\<rparr>) parent h = (child, h')"
  shows "useComponentAdaptations (Some child) r h' = noAdaptations \<and>
     propsInterceptors_of h' (useComponentAdaptations (Some child) r h') = [] \<and>
     components_of h' (useComponentAdaptations (Some child) r h') = []"
proof -
  have "provided (no_props\<lparr>reset := Some True\<rparr>) (context_entry h parent) (ref_id r) = None"
    by (simp add: provided_def no_props_def)
  then show ?thesis
    using child_miss[OF assms] child_components[OF assms, of r]
      child_propsInterceptors[OF assms, of r]
    by simp
qed

theorem reset_discards_parent_witness:
  "wf_heap heap_a \<and> valid_context heap_a (Some 0) \<and>
   useComponentAdaptations (Some 0) ref_X heap_a \<noteq> noAdaptations \<and>
   useComponentAdaptations
     (Some (fst (AdaptationProvider (no_props\<lparr>reset := Some True\<rparr>) (Some 0) heap_a))) ref_X
     (snd (AdaptationProvider (no_props\<lparr>reset := Some True\<rparr>) (Some 0) heap_a)) = noAdaptations"
  using reset_discards_parent[OF wf_heap_a valid_context_a surjective_pairing, of ref_X]
    wf_heap_a valid_context_a heap_a_X(1)
  by blast








end
